theory Spec2Isabelle
  imports Complex_Main "HOL-Library.AList"
begin

section \<open>Errors and dictionaries\<close>

text \<open>
  The exceptions the modelled code can raise. \<open>DivisionByZero\<close> and \<open>InvalidOperation\<close>
  are the two exceptions of Python's \<open>decimal\<close> module that a division raises under the
  default context: \<open>x / 0\<close> with \<open>x \<noteq> 0\<close> raises \<open>DivisionByZero\<close>, and \<open>0 / 0\<close> raises
  \<open>InvalidOperation\<close> (division undefined). \<open>InvalidOperation\<close> is also what the
  \<open>Decimal\<close> constructor raises on a malformed string.
\<close>

datatype error = KeyError | IndexError | StopIteration | DivisionByZero | InvalidOperation

text \<open>
  A Python \<open>dict\<close> keeps its keys in insertion order, and the order is visible wherever
  the code sums \<open>d.values()\<close>. A dictionary is therefore an association list with
  distinct keys; \<open>d[k] = v\<close> is \<open>AList.update k v d\<close> (the value is replaced in place
  when the key is present, the pair is appended otherwise), \<open>d[k]\<close> is \<open>lookup\<close>, which
  raises \<open>KeyError\<close> when the key is absent, and \<open>d.get(k, v)\<close> is \<open>get_default\<close>.
\<close>

type_synonym ('k, 'v) dict = "('k \<times> 'v) list"

definition lookup :: "('k, 'v) dict \<Rightarrow> 'k \<Rightarrow> error + 'v" where
  "lookup d k = (case map_of d k of None \<Rightarrow> Inl KeyError | Some v \<Rightarrow> Inr v)"

definition get_default :: "('k, 'v) dict \<Rightarrow> 'k \<Rightarrow> 'v \<Rightarrow> 'v" where
  "get_default d k v = (case map_of d k of None \<Rightarrow> v | Some w \<Rightarrow> w)"

section \<open>The balance loader\<close>

text \<open>
  \<open>get_balance_dictionary\<close> reads the rows that \<open>csv.reader\<close> yields: each row is a list
  of strings, and a blank line is the empty list. The \<open>Decimal\<close> constructor is the
  parameter \<open>to_decimal\<close>; it may raise. \<open>next(reader)\<close> drops the header row and raises
  \<open>StopIteration\<close> on a file without rows; \<open>row[2]\<close> and \<open>row[5]\<close> raise \<open>IndexError\<close> on a
  short row.
\<close>

definition cash_symbol :: string where
  "cash_symbol = ''VMFXX''"

fun read_rows ::
  "(string \<Rightarrow> error + 'd) \<Rightarrow> string list list \<Rightarrow> (string, 'd) dict \<Rightarrow> error + (string, 'd) dict"
where
  "read_rows to_decimal [] symbol_balance = Inr symbol_balance"
| "read_rows to_decimal (row # rows) symbol_balance =
     (if row = [] then Inr symbol_balance
      else if length row \<le> 5 then Inl IndexError
      else let symbol = row ! 2; balance_str = row ! 5 in
        if symbol \<noteq> cash_symbol then
          (case to_decimal balance_str of
             Inl e \<Rightarrow> Inl e
           | Inr balance \<Rightarrow> read_rows to_decimal rows (AList.update symbol balance symbol_balance))
        else read_rows to_decimal rows symbol_balance)"

definition get_balance_dictionary ::
  "(string \<Rightarrow> error + 'd) \<Rightarrow> string list list \<Rightarrow> error + (string, 'd) dict"
where
  "get_balance_dictionary to_decimal file =
     (case file of
        [] \<Rightarrow> Inl StopIteration
      | header # rows \<Rightarrow> read_rows to_decimal rows [])"

text \<open>The rows the loop body runs on: those before the first blank line.\<close>

definition processed :: "string list list \<Rightarrow> string list list" where
  "processed rows = takeWhile (\<lambda>row. row \<noteq> []) rows"

text \<open>The last processed row that names a symbol, if there is one.\<close>

definition last_row_of :: "string \<Rightarrow> string list list \<Rightarrow> string list option" where
  "last_row_of symbol rows =
     (case filter (\<lambda>row. row ! 2 = symbol) (processed rows) of
        [] \<Rightarrow> None
      | r # rs \<Rightarrow> Some (last (r # rs)))"

section \<open>Decimal arithmetic\<close>

text \<open>
  The amounts are Python \<open>Decimal\<close>s under the default context: precision 28, rounding
  \<open>ROUND_HALF_EVEN\<close>. A finite \<open>Decimal\<close> is modelled by its numerical value, a
  rational number (every \<open>Decimal\<close> is a rational, and the comparisons the program makes
  are numerical). The constructor \<open>Decimal(str)\<close> is exact; each arithmetic operation
  computes the exact result and rounds it to 28 significant digits, which \<open>round_ctx\<close>
  does. Outside the model: the special values (\<open>NaN\<close>, \<open>Infinity\<close>), the sign of zero,
  the exponent a value is written with, and the exponent limits of the context
  (\<open>Emax = 999999\<close>, \<open>Emin = -999999\<close>).
\<close>

type_synonym decimal = rat

definition prec :: nat where
  "prec = 28"

text \<open>The number of decimal digits of a positive integer.\<close>

function digits :: "int \<Rightarrow> int" where
  "digits n = (if n < 10 then 1 else 1 + digits (n div 10))"
  by pat_completeness auto
termination
  by (relation "measure nat") auto

declare digits.simps [simp del]

text \<open>
  \<open>adjusted x\<close> is the exponent of the most significant digit of \<open>x\<close>
  (\<open>Decimal.adjusted()\<close>): the integer \<open>e\<close> with \<open>10\<^sup>e \<le> \<bar>x\<bar> < 10\<^sup>e\<^sup>+\<^sup>1\<close>. The digit counts
  of numerator and denominator give it up to one, and the comparison settles it.
\<close>

definition adjusted :: "rat \<Rightarrow> int" where
  "adjusted x =
     (let (p, q) = quotient_of \<bar>x\<bar>;
          g = digits p - digits q
      in if 10 powi g \<le> \<bar>x\<bar> then g else g - 1)"

definition round_half_even :: "rat \<Rightarrow> int" where
  "round_half_even x =
     (let f = \<lfloor>x\<rfloor>; r = x - of_int f
      in if r < 1 / 2 then f else if 1 / 2 < r then f + 1 else if even f then f else f + 1)"

text \<open>The unit in the last of the 28 digits that \<open>x\<close> is rounded to.\<close>

definition quantum :: "rat \<Rightarrow> rat" where
  "quantum x = 10 powi (adjusted x - (int prec - 1))"

definition round_ctx :: "rat \<Rightarrow> decimal" where
  "round_ctx x = (if x = 0 then 0 else of_int (round_half_even (x / quantum x)) * quantum x)"

definition dec_add :: "decimal \<Rightarrow> decimal \<Rightarrow> decimal" where
  "dec_add a b = round_ctx (a + b)"

definition dec_sub :: "decimal \<Rightarrow> decimal \<Rightarrow> decimal" where
  "dec_sub a b = round_ctx (a - b)"

definition dec_mul :: "decimal \<Rightarrow> decimal \<Rightarrow> decimal" where
  "dec_mul a b = round_ctx (a * b)"

definition dec_div :: "decimal \<Rightarrow> decimal \<Rightarrow> error + decimal" where
  "dec_div a b =
     (if b = 0 then (if a = 0 then Inl InvalidOperation else Inl DivisionByZero)
      else Inr (round_ctx (a / b)))"

text \<open>
  \<open>sum(values)\<close> starts from the integer \<open>0\<close> and adds the values from left to right;
  each addition is a \<open>Decimal\<close> addition, the first one included. The sum of no values
  is \<open>0\<close>.
\<close>

definition py_sum :: "decimal list \<Rightarrow> decimal" where
  "py_sum xs = foldl dec_add 0 xs"

text \<open>The unit roundoff of the context: half a unit in the 28th digit, relative.\<close>

definition unit_roundoff :: rat where
  "unit_roundoff = 1 / (2 * 10 ^ 27)"

text \<open>
  A dictionary comprehension \<open>{k: f(k) for k in keys}\<close> over distinct keys, and equally a
  loop that computes one value per key: the first key whose value raises ends it.
\<close>

fun comprehension :: "('k \<Rightarrow> error + 'v) \<Rightarrow> 'k list \<Rightarrow> error + ('k, 'v) dict" where
  "comprehension f [] = Inr []"
| "comprehension f (k # ks) =
     (case f k of
        Inl e \<Rightarrow> Inl e
      | Inr v \<Rightarrow> (case comprehension f ks of Inl e \<Rightarrow> Inl e | Inr d \<Rightarrow> Inr ((k, v) # d)))"

section \<open>The category aggregator\<close>

text \<open>
  \<open>get_category_totals\<close>: every category starts at \<open>Decimal(0)\<close>; then, category by
  category and symbol by symbol, \<open>category_totals[category] += symbol_balances.get(symbol,
  Decimal(0))\<close>. \<open>categories\<close> maps a category to the list of its symbols.
\<close>

fun add_symbols ::
  "(string, decimal) dict \<Rightarrow> string \<Rightarrow> string list \<Rightarrow> (string, decimal) dict
   \<Rightarrow> error + (string, decimal) dict"
where
  "add_symbols symbol_balances category [] category_totals = Inr category_totals"
| "add_symbols symbol_balances category (symbol # symbols) category_totals =
     (case lookup category_totals category of
        Inl e \<Rightarrow> Inl e
      | Inr current \<Rightarrow>
          add_symbols symbol_balances category symbols
            (AList.update category (dec_add current (get_default symbol_balances symbol 0))
               category_totals))"

fun add_categories ::
  "(string, decimal) dict \<Rightarrow> (string, string list) dict \<Rightarrow> (string, decimal) dict
   \<Rightarrow> error + (string, decimal) dict"
where
  "add_categories symbol_balances [] category_totals = Inr category_totals"
| "add_categories symbol_balances ((category, symbols) # categories) category_totals =
     (case add_symbols symbol_balances category symbols category_totals of
        Inl e \<Rightarrow> Inl e
      | Inr category_totals' \<Rightarrow> add_categories symbol_balances categories category_totals')"

definition get_category_totals ::
  "(string, decimal) dict \<Rightarrow> (string, string list) dict \<Rightarrow> error + (string, decimal) dict"
where
  "get_category_totals symbol_balances categories =
     add_categories symbol_balances categories (map (\<lambda>(category, symbols). (category, 0)) categories)"

text \<open>The total of one category, as the inner loop computes it.\<close>

definition category_total :: "(string, decimal) dict \<Rightarrow> string list \<Rightarrow> decimal" where
  "category_total symbol_balances symbols =
     foldl (\<lambda>running symbol. dec_add running (get_default symbol_balances symbol 0)) 0 symbols"

section \<open>The allocation analyzer\<close>

text \<open>
  \<open>main\<close>, lines 119 to 124: \<open>total_balance = Decimal(sum(category_totals.values()))\<close>, and
  for every category of \<open>target_allocation\<close> the current allocation
  \<open>category_totals.get(category, Decimal(0)) / total_balance\<close>.
\<close>

definition total_balance :: "(string, decimal) dict \<Rightarrow> decimal" where
  "total_balance category_totals = py_sum (map snd category_totals)"

definition current_allocations ::
  "(string, decimal) dict \<Rightarrow> (string, decimal) dict \<Rightarrow> error + (string, decimal) dict"
where
  "current_allocations category_totals target_allocation =
     comprehension
       (\<lambda>category. dec_div (get_default category_totals category 0) (total_balance category_totals))
       (map fst target_allocation)"

section \<open>The investment distributor\<close>

definition get_desired_balances ::
  "decimal \<Rightarrow> decimal \<Rightarrow> (string, decimal) dict \<Rightarrow> (string, decimal) dict"
where
  "get_desired_balances investment_amount balance target_allocation =
     (let new_total_balance = dec_add balance investment_amount
      in map (\<lambda>(category, allocation). (category, dec_mul new_total_balance allocation))
           target_allocation)"

text \<open>
  \<open>main\<close>, lines 135 to 140: for every category,
  \<open>max(desired_balances[category] - category_totals[category], Decimal(0))\<close>.
\<close>

definition shortfalls ::
  "(string, decimal) dict \<Rightarrow> (string, decimal) dict \<Rightarrow> (string, string list) dict
   \<Rightarrow> error + (string, decimal) dict"
where
  "shortfalls desired_balances category_totals categories =
     comprehension
       (\<lambda>category.
          case lookup desired_balances category of
            Inl e \<Rightarrow> Inl e
          | Inr desired \<Rightarrow>
              (case lookup category_totals category of
                 Inl e \<Rightarrow> Inl e
               | Inr current \<Rightarrow> Inr (max (dec_sub desired current) 0)))
       (map fst categories)"

text \<open>
  \<open>main\<close>, lines 142 to 148: when the total needed exceeds the investment, every needed
  investment becomes \<open>investment_amount * (needed_investments[category] / total_needed)\<close>.
\<close>

definition total_needed :: "(string, decimal) dict \<Rightarrow> decimal" where
  "total_needed needed = py_sum (map snd needed)"

definition cap_to_investment ::
  "decimal \<Rightarrow> (string, decimal) dict \<Rightarrow> error + (string, decimal) dict"
where
  "cap_to_investment investment_amount needed =
     (if total_needed needed > investment_amount then
        comprehension
          (\<lambda>category.
             case lookup needed category of
               Inl e \<Rightarrow> Inl e
             | Inr n \<Rightarrow>
                 (case dec_div n (total_needed needed) of
                    Inl e \<Rightarrow> Inl e
                  | Inr share \<Rightarrow> Inr (dec_mul investment_amount share)))
          (map fst needed)
      else Inr needed)"

text \<open>Lines 128 to 148 together: the needed investments that \<open>main\<close> prints.\<close>

definition needed_investments ::
  "decimal \<Rightarrow> (string, decimal) dict \<Rightarrow> (string, decimal) dict \<Rightarrow> (string, string list) dict
   \<Rightarrow> error + (string, decimal) dict"
where
  "needed_investments investment_amount category_totals target_allocation categories =
     (case shortfalls
             (get_desired_balances investment_amount (total_balance category_totals) target_allocation)
             category_totals categories of
        Inl e \<Rightarrow> Inl e
      | Inr needed \<Rightarrow> cap_to_investment investment_amount needed)"

text \<open>Lines 151 to 154.\<close>

definition resulting_totals ::
  "(string, decimal) dict \<Rightarrow> (string, decimal) dict \<Rightarrow> (string, string list) dict
   \<Rightarrow> error + (string, decimal) dict"
where
  "resulting_totals category_totals needed categories =
     comprehension
       (\<lambda>category.
          case lookup category_totals category of
            Inl e \<Rightarrow> Inl e
          | Inr current \<Rightarrow>
              (case lookup needed category of
                 Inl e \<Rightarrow> Inl e
               | Inr n \<Rightarrow> Inr (dec_add current n)))
       (map fst categories)"

text \<open>Lines 155 to 161.\<close>

definition resulting_total_balance :: "(string, decimal) dict \<Rightarrow> decimal" where
  "resulting_total_balance totals = py_sum (map snd totals)"

definition resulting_allocations ::
  "(string, decimal) dict \<Rightarrow> (string, string list) dict \<Rightarrow> error + (string, decimal) dict"
where
  "resulting_allocations totals categories =
     comprehension
       (\<lambda>category.
          case lookup totals category of
            Inl e \<Rightarrow> Inl e
          | Inr current \<Rightarrow> dec_div current (resulting_total_balance totals))
       (map fst categories)"

record distribution =
  needed_out :: "(string, decimal) dict"
  totals_out :: "(string, decimal) dict"
  allocations_out :: "(string, decimal) dict"

text \<open>The distributor: \<open>main\<close> from line 128 to line 161.\<close>

definition distribute ::
  "decimal \<Rightarrow> (string, decimal) dict \<Rightarrow> (string, decimal) dict \<Rightarrow> (string, string list) dict
   \<Rightarrow> error + distribution"
where
  "distribute investment_amount category_totals target_allocation categories =
     (case needed_investments investment_amount category_totals target_allocation categories of
        Inl e \<Rightarrow> Inl e
      | Inr n \<Rightarrow>
          (case resulting_totals category_totals n categories of
             Inl e \<Rightarrow> Inl e
           | Inr t \<Rightarrow>
               (case resulting_allocations t categories of
                  Inl e \<Rightarrow> Inl e
                | Inr a \<Rightarrow> Inr \<lparr>needed_out = n, totals_out = t, allocations_out = a\<rparr>)))"

text \<open>
  The computation of \<open>main\<close> on the loaded balances, the configuration and the amount
  entered: aggregate, analyze, distribute. Printing is left out.
\<close>

definition main ::
  "(string, decimal) dict \<Rightarrow> (string, string list) dict \<Rightarrow> (string, decimal) dict \<Rightarrow> decimal
   \<Rightarrow> error + distribution"
where
  "main symbol_balances categories target_allocation investment_amount =
     (case get_category_totals symbol_balances categories of
        Inl e \<Rightarrow> Inl e
      | Inr category_totals \<Rightarrow>
          (case current_allocations category_totals target_allocation of
             Inl e \<Rightarrow> Inl e
           | Inr fractions \<Rightarrow>
               distribute investment_amount category_totals target_allocation categories))"

text \<open>
  The spec's words for the needed investment of one category (data model,
  NeededInvestment, and step 4 of the distributor): \<open>max(0, desired_balance -
  current_total)\<close> with \<open>desired_balance = (current_total_balance + investment_amount) *
  target_fraction\<close>, each operation a \<open>Decimal\<close> operation. The claims compare it with
  what \<open>main\<close> computes.
\<close>

definition desired_shortfall :: "decimal \<Rightarrow> decimal \<Rightarrow> decimal \<Rightarrow> decimal \<Rightarrow> decimal" where
  "desired_shortfall current_total_balance investment_amount target_fraction current_total =
     max 0 (dec_sub (dec_mul (dec_add current_total_balance investment_amount) target_fraction)
              current_total)"

text \<open>
  \<open>on_grid k x\<close>: the amount \<open>x\<close> is a whole number of units \<open>10\<^sup>k\<close> (of cents, for
  \<open>k = -2\<close>).
\<close>

definition on_grid :: "int \<Rightarrow> rat \<Rightarrow> bool" where
  "on_grid k x \<longleftrightarrow> of_int \<lfloor>x / 10 powi k\<rfloor> * 10 powi k = x"

section \<open>Properties of the rounding\<close>

lemma digits_pos: "1 \<le> digits n"
proof (induction n rule: digits.induct)
  case (1 n)
  show ?case
  proof (cases "n < 10")
    case True
    then show ?thesis by (subst digits.simps) simp
  next
    case False
    with 1 show ?thesis by (subst digits.simps) simp
  qed
qed

lemma digits_bounds:
  "0 < n \<Longrightarrow> (10::rat) powi (digits n - 1) \<le> of_int n \<and> of_int n < (10::rat) powi digits n"
proof (induction n rule: digits.induct)
  case (1 n)
  show ?case
  proof (cases "n < 10")
    case True
    then have d: "digits n = 1" by (subst digits.simps) simp
    from True "1.prems" have "(1::rat) \<le> of_int n" "of_int n < (10::rat)" by simp_all
    with d show ?thesis by simp
  next
    case False
    let ?m = "n div 10"
    from False have m: "0 < ?m" by simp
    have d: "digits n = 1 + digits ?m" using False by (subst digits.simps) simp
    from "1.IH" [OF False m]
    have lo: "(10::rat) powi (digits ?m - 1) \<le> of_int ?m"
      and hi: "of_int ?m < (10::rat) powi digits ?m" by simp_all
    have p: "(10::rat) powi digits ?m = 10 * 10 powi (digits ?m - 1)"
      using power_int_add_1' [of "10::rat" "digits ?m - 1"] by simp
    have p2: "(10::rat) powi (1 + digits ?m) = 10 * 10 powi digits ?m"
      using power_int_add_1' [of "10::rat" "digits ?m"] by (simp add: add.commute)
    have "10 * ?m \<le> n" by simp
    then have a: "10 * (of_int ?m :: rat) \<le> of_int n"
      by (metis of_int_le_iff of_int_mult of_int_numeral)
    obtain k where k: "digits ?m = int k" using digits_pos [of ?m]
      by (metis nonneg_int_cases order_trans zero_le_one)
    from hi have "of_int ?m < (of_int (10 ^ k) :: rat)" by (simp add: k)
    then have "?m < 10 ^ k" by (simp only: of_int_less_iff)
    then have "?m + 1 \<le> 10 ^ k" by simp
    then have "10 * (?m + 1) \<le> 10 * 10 ^ k" by simp
    moreover have "n < 10 * (?m + 1)" by simp
    ultimately have "n < 10 * 10 ^ k" by linarith
    then have "(of_int n :: rat) < of_int (10 * 10 ^ k)" by (simp only: of_int_less_iff)
    then have b: "(of_int n :: rat) < 10 * 10 powi digits ?m" by (simp add: k)
    from lo a b show ?thesis unfolding d p2 using p by simp
  qed
qed

lemma powi_less_iff: "(10::rat) powi m < 10 powi n \<longleftrightarrow> m < n"
proof
  assume a: "(10::rat) powi m < 10 powi n"
  show "m < n"
  proof (rule ccontr)
    assume "\<not> m < n"
    then have "n \<le> m" by simp
    then have "(10::rat) powi n \<le> 10 powi m" by (intro power_int_increasing) auto
    with a show False by simp
  qed
next
  assume "m < n"
  then show "(10::rat) powi m < 10 powi n" by (intro power_int_strict_increasing) auto
qed

lemma powi_le_iff: "(10::rat) powi m \<le> 10 powi n \<longleftrightarrow> m \<le> n"
  using powi_less_iff [of n m] by (auto simp: not_less [symmetric])

lemma powi_pos: "(0::rat) < 10 powi n"
  by (simp add: zero_less_power_int)

lemma adjusted_bounds:
  assumes "x \<noteq> 0"
  shows "10 powi adjusted x \<le> \<bar>x\<bar> \<and> \<bar>x\<bar> < 10 powi (adjusted x + 1)"
proof -
  obtain p q where pq: "quotient_of \<bar>x\<bar> = (p, q)" by (cases "quotient_of \<bar>x\<bar>")
  then have q: "0 < q" and x: "\<bar>x\<bar> = of_int p / of_int q"
    by (auto dest: quotient_of_denom_pos quotient_of_div)
  from assms have "0 < \<bar>x\<bar>" by simp
  with x q have p: "0 < p" by (simp add: zero_less_divide_iff)
  let ?g = "digits p - digits q"
  note bp = digits_bounds [OF p] and bq = digits_bounds [OF q]
  have qpos: "(0::rat) < of_int q" using q by simp
  have lo: "10 powi (?g - 1) \<le> \<bar>x\<bar>"
  proof -
    have "(10::rat) powi (?g - 1) = 10 powi (digits p - 1) / 10 powi digits q"
      by (simp add: power_int_diff)
    also have "\<dots> \<le> of_int p / of_int q"
      using bp bq qpos p by (intro frac_le) auto
    finally show ?thesis by (simp add: x)
  qed
  have hi: "\<bar>x\<bar> < 10 powi (?g + 1)"
  proof -
    have "of_int p / of_int q < (10::rat) powi digits p / 10 powi (digits q - 1)"
      using bp bq p powi_pos [of "digits q - 1"] by (intro frac_less) auto
    also have "\<dots> = 10 powi (?g + 1)"
      by (simp add: power_int_diff [symmetric] algebra_simps)
    finally show ?thesis by (simp add: x)
  qed
  show ?thesis
  proof (cases "10 powi ?g \<le> \<bar>x\<bar>")
    case True
    then have "adjusted x = ?g" by (simp add: adjusted_def pq)
    with True hi show ?thesis by simp
  next
    case False
    then have "adjusted x = ?g - 1" by (simp add: adjusted_def pq)
    with False lo show ?thesis by simp
  qed
qed

lemma adjusted_unique:
  assumes "10 powi e \<le> \<bar>x\<bar>" and "\<bar>x\<bar> < 10 powi (e + 1)"
  shows "adjusted x = e"
proof -
  from assms(1) powi_pos [of e] have "0 < \<bar>x\<bar>" by linarith
  then have nz: "x \<noteq> 0" by simp
  note b = adjusted_bounds [OF nz]
  have "(10::rat) powi e < 10 powi (adjusted x + 1)" using assms(1) b by linarith
  then have 1: "e < adjusted x + 1" by (simp only: powi_less_iff)
  have "(10::rat) powi adjusted x < 10 powi (e + 1)" using assms(2) b by linarith
  then have 2: "adjusted x < e + 1" by (simp only: powi_less_iff)
  from 1 2 show ?thesis by simp
qed

lemma rhe_floor_bounds:
  "\<lfloor>x\<rfloor> \<le> round_half_even x \<and> round_half_even x \<le> \<lfloor>x\<rfloor> + 1"
  by (simp add: round_half_even_def Let_def)

lemma rhe_err: "\<bar>of_int (round_half_even x) - x\<bar> \<le> 1 / 2"
proof -
  have "of_int \<lfloor>x\<rfloor> \<le> x" "x < of_int \<lfloor>x\<rfloor> + 1" by linarith+
  then show ?thesis by (auto simp: round_half_even_def Let_def)
qed

lemma rhe_of_int: "round_half_even (of_int n) = n"
  by (simp add: round_half_even_def)

lemma rhe_mono:
  assumes "x \<le> y"
  shows "round_half_even x \<le> round_half_even y"
proof (cases "\<lfloor>x\<rfloor> = \<lfloor>y\<rfloor>")
  case True
  with assms show ?thesis by (auto simp: round_half_even_def Let_def)
next
  case False
  with assms have "\<lfloor>x\<rfloor> < \<lfloor>y\<rfloor>" using floor_mono [of x y] by simp
  with rhe_floor_bounds [of x] rhe_floor_bounds [of y] show ?thesis by linarith
qed

lemma rhe_neg: "round_half_even (- x) = - round_half_even x"
proof (cases "x = of_int \<lfloor>x\<rfloor>")
  case True
  then obtain n where "x = of_int n" ..
  then have "- x = of_int (- n)" by simp
  with \<open>x = of_int n\<close> show ?thesis by (simp only: rhe_of_int)
next
  case False
  then have f: "\<lfloor>- x\<rfloor> = - \<lfloor>x\<rfloor> - 1"
    by (simp add: floor_minus ceiling_altdef)
  have e: "even (- \<lfloor>x\<rfloor> - 1) \<longleftrightarrow> odd \<lfloor>x\<rfloor>" by simp
  show ?thesis
    unfolding round_half_even_def Let_def f e by (auto simp: algebra_simps)
qed

lemma quantum_eq: "quantum x = 10 powi adjusted x / 10 ^ 27"
  by (simp add: quantum_def prec_def power_int_diff)

lemma quantum_pos: "0 < quantum x"
  by (simp add: quantum_def zero_less_power_int)

lemma adjusted_neg: "adjusted (- x) = adjusted x"
  by (simp add: adjusted_def)

lemma quantum_neg: "quantum (- x) = quantum x"
  by (simp add: quantum_def adjusted_neg)

lemma round_ctx_neg: "round_ctx (- x) = - round_ctx x"
  by (simp add: round_ctx_def quantum_neg rhe_neg)

lemma scaled_bounds:
  assumes "0 < x"
  shows "10 ^ 27 \<le> x / quantum x" and "x / quantum x < 10 ^ 28"
proof -
  from assms have nz: "x \<noteq> 0" by simp
  let ?p = "(10::rat) powi adjusted x"
  have pp: "0 < ?p" by (rule powi_pos)
  from adjusted_bounds [OF nz] assms
  have lo: "?p \<le> x" and hi: "x < 10 * ?p"
    by (simp_all add: power_int_add)
  have q: "x / quantum x = (x / ?p) * 10 ^ 27" by (simp add: quantum_eq)
  from lo pp have a: "1 \<le> x / ?p" by (simp add: le_divide_eq)
  show "10 ^ 27 \<le> x / quantum x"
    unfolding q using mult_right_mono [OF a, of "10 ^ 27"] by simp
  from hi pp have b: "x / ?p < 10" by (simp add: divide_less_eq)
  show "x / quantum x < 10 ^ 28"
    unfolding q using mult_strict_right_mono [OF b, of "10 ^ 27"] by simp
qed

lemma rhe_scaled_bounds:
  assumes "0 < x"
  shows "10 ^ 27 \<le> round_half_even (x / quantum x)"
    and "round_half_even (x / quantum x) \<le> 10 ^ 28"
proof -
  from scaled_bounds [OF assms]
  have "of_int (10 ^ 27) \<le> x / quantum x" "x / quantum x \<le> of_int (10 ^ 28)" by simp_all
  from rhe_mono [OF this(1)] rhe_mono [OF this(2)]
  show "10 ^ 27 \<le> round_half_even (x / quantum x)"
    and "round_half_even (x / quantum x) \<le> 10 ^ 28"
    by (simp_all only: rhe_of_int)
qed

lemma round_ctx_lower:
  assumes "0 < x"
  shows "10 powi adjusted x \<le> round_ctx x"
proof -
  from rhe_scaled_bounds(1) [OF assms]
  have "(of_int (10 ^ 27) :: rat) \<le> of_int (round_half_even (x / quantum x))"
    by (simp only: of_int_le_iff)
  then have "10 ^ 27 * quantum x \<le> of_int (round_half_even (x / quantum x)) * quantum x"
    using quantum_pos [of x] by (intro mult_right_mono) simp_all
  with assms show ?thesis by (simp add: round_ctx_def quantum_eq)
qed

lemma round_ctx_upper:
  assumes "0 < x"
  shows "round_ctx x \<le> 10 powi (adjusted x + 1)"
proof -
  from rhe_scaled_bounds(2) [OF assms]
  have "(of_int (round_half_even (x / quantum x)) :: rat) \<le> of_int (10 ^ 28)"
    by (simp only: of_int_le_iff)
  then have "of_int (round_half_even (x / quantum x)) * quantum x \<le> 10 ^ 28 * quantum x"
    using quantum_pos [of x] by (intro mult_right_mono) simp_all
  with assms show ?thesis by (simp add: round_ctx_def quantum_eq power_int_add)
qed

lemma round_ctx_pos: "0 < x \<Longrightarrow> 0 < round_ctx x"
  using round_ctx_lower [of x] powi_pos [of "adjusted x"] by linarith

lemma round_ctx_0 [simp]: "round_ctx 0 = 0"
  by (simp add: round_ctx_def)

lemma round_ctx_err: "\<bar>round_ctx x - x\<bar> \<le> quantum x / 2"
proof (cases "x = 0")
  case True
  then show ?thesis using quantum_pos [of 0] by simp
next
  case False
  let ?q = "quantum x"
  have q: "0 < ?q" by (rule quantum_pos)
  have "round_ctx x - x = (of_int (round_half_even (x / ?q)) - x / ?q) * ?q"
    using False q by (simp add: round_ctx_def algebra_simps)
  then have "\<bar>round_ctx x - x\<bar> = \<bar>of_int (round_half_even (x / ?q)) - x / ?q\<bar> * ?q"
    using q by (simp add: abs_mult)
  also have "\<dots> \<le> (1 / 2) * ?q"
    using rhe_err [of "x / ?q"] q by (intro mult_right_mono) simp_all
  finally show ?thesis by simp
qed

lemma round_ctx_exact_pos:
  assumes c: "0 < c" "c < 10 ^ 28"
  shows "round_ctx (of_int c * 10 powi k) = of_int c * 10 powi k"
proof -
  let ?x = "of_int c * (10::rat) powi k"
  let ?e = "adjusted ?x"
  have xpos: "0 < ?x" using c(1) powi_pos [of k] by simp
  have nz: "?x \<noteq> 0" using c(1) by simp
  from c(2) have "(of_int c :: rat) < of_int (10 ^ 28)" by (simp only: of_int_less_iff)
  then have "?x < 10 ^ 28 * 10 powi k"
    using powi_pos [of k] by (intro mult_strict_right_mono) simp_all
  also have "\<dots> = 10 powi (k + 28)" by (simp add: power_int_add)
  finally have "?x < 10 powi (k + 28)" .
  moreover from adjusted_bounds [OF nz] xpos have "10 powi ?e \<le> ?x" by simp
  ultimately have "(10::rat) powi ?e < 10 powi (k + 28)" by linarith
  then have "?e < k + 28" by (simp only: powi_less_iff)
  then have "0 \<le> k - (?e - 27)" by simp
  then obtain n where n: "k - (?e - 27) = int n" by (rule nonneg_int_cases)
  have "?x / quantum ?x = of_int c * 10 powi (k - (?e - 27))"
    by (simp add: quantum_def prec_def power_int_diff)
  also have "\<dots> = of_int (c * 10 ^ n)" by (simp add: n)
  finally have s: "?x / quantum ?x = of_int (c * 10 ^ n)" .
  have "round_ctx ?x = of_int (c * 10 ^ n) * quantum ?x"
    using nz by (simp only: round_ctx_def s rhe_of_int if_False)
  also have "\<dots> = (?x / quantum ?x) * quantum ?x" by (simp only: s)
  also have "\<dots> = ?x" using quantum_pos [of ?x] by simp
  finally show ?thesis .
qed

lemma round_ctx_exact_nonneg:
  assumes c: "0 \<le> c" "c \<le> 10 ^ 28"
  shows "round_ctx (of_int c * 10 powi k) = of_int c * 10 powi k"
proof -
  consider "c = 0" | "0 < c" "c < 10 ^ 28" | "c = 10 ^ 28" using c by linarith
  then show ?thesis
  proof cases
    case 1
    then show ?thesis by simp
  next
    case 2
    then show ?thesis by (rule round_ctx_exact_pos)
  next
    case 3
    have "of_int c * (10::rat) powi k = of_int (10 ^ 27) * 10 powi (k + 1)"
      by (simp add: 3 power_int_add)
    moreover have "round_ctx (of_int (10 ^ 27) * 10 powi (k + 1)) = of_int (10 ^ 27) * 10 powi (k + 1)"
      by (rule round_ctx_exact_pos) simp_all
    ultimately show ?thesis by simp
  qed
qed

lemma round_ctx_exact:
  assumes "\<bar>c\<bar> \<le> 10 ^ 28"
  shows "round_ctx (of_int c * 10 powi k) = of_int c * 10 powi k"
proof (cases "0 \<le> c")
  case True
  with assms show ?thesis by (intro round_ctx_exact_nonneg) simp_all
next
  case False
  with assms have "round_ctx (of_int (- c) * 10 powi k) = of_int (- c) * 10 powi k"
    by (intro round_ctx_exact_nonneg) simp_all
  then have "round_ctx (- (of_int c * 10 powi k)) = - (of_int c * 10 powi k)" by simp
  then show ?thesis by (simp only: round_ctx_neg neg_equal_iff_equal)
qed

lemma round_ctx_idem: "round_ctx (round_ctx x) = round_ctx x"
proof -
  have pos: "round_ctx (round_ctx y) = round_ctx y" if "0 < y" for y
  proof -
    let ?m = "round_half_even (y / quantum y)"
    from rhe_scaled_bounds [OF that] have "\<bar>?m\<bar> \<le> 10 ^ 28" by simp
    from round_ctx_exact [OF this, of "adjusted y - (int prec - 1)"] that
    show ?thesis by (simp add: round_ctx_def quantum_def)
  qed
  consider "x = 0" | "0 < x" | "0 < - x" by linarith
  then show ?thesis
  proof cases
    case 1
    then show ?thesis by simp
  next
    case 2
    then show ?thesis by (rule pos)
  next
    case 3
    from pos [OF 3] show ?thesis by (simp only: round_ctx_neg neg_equal_iff_equal)
  qed
qed

lemma round_ctx_mono_pos:
  assumes "0 < x" "x \<le> y"
  shows "round_ctx x \<le> round_ctx y"
proof -
  from assms have y: "0 < y" by simp
  from assms have nzx: "x \<noteq> 0" and nzy: "y \<noteq> 0" by simp_all
  from adjusted_bounds [OF nzx] adjusted_bounds [OF nzy] assms y
  have "(10::rat) powi adjusted x < 10 powi (adjusted y + 1)" by simp
  then have le: "adjusted x \<le> adjusted y" by (simp add: powi_less_iff)
  show ?thesis
  proof (cases "adjusted x = adjusted y")
    case True
    then have q: "quantum x = quantum y" by (simp add: quantum_def)
    have "x / quantum y \<le> y / quantum y"
      using assms(2) quantum_pos [of y] by (simp add: divide_right_mono)
    from rhe_mono [OF this]
    have "(of_int (round_half_even (x / quantum y)) :: rat) \<le> of_int (round_half_even (y / quantum y))"
      by (simp only: of_int_le_iff)
    then have "of_int (round_half_even (x / quantum y)) * quantum y
        \<le> of_int (round_half_even (y / quantum y)) * quantum y"
      using quantum_pos [of y] by (intro mult_right_mono) simp_all
    with nzx nzy show ?thesis by (simp add: round_ctx_def q)
  next
    case False
    with le have "adjusted x + 1 \<le> adjusted y" by simp
    then have "(10::rat) powi (adjusted x + 1) \<le> 10 powi adjusted y" by (simp only: powi_le_iff)
    with round_ctx_upper [OF assms(1)] round_ctx_lower [OF y] show ?thesis by linarith
  qed
qed

lemma round_ctx_nonneg: "0 \<le> x \<Longrightarrow> 0 \<le> round_ctx x"
  using round_ctx_pos [of x] by (cases "x = 0") simp_all

lemma round_ctx_nonpos: "x \<le> 0 \<Longrightarrow> round_ctx x \<le> 0"
  using round_ctx_nonneg [of "- x"] by (simp add: round_ctx_neg)

lemma round_ctx_mono:
  assumes "x \<le> y"
  shows "round_ctx x \<le> round_ctx y"
proof -
  consider "0 < x" | "x \<le> 0" "0 \<le> y" | "y < 0" using assms by linarith
  then show ?thesis
  proof cases
    case 1
    then show ?thesis using assms by (rule round_ctx_mono_pos)
  next
    case 2
    with round_ctx_nonpos [of x] round_ctx_nonneg [of y] show ?thesis by linarith
  next
    case 3
    with assms have "0 < - y" "- y \<le> - x" by simp_all
    from round_ctx_mono_pos [OF this] show ?thesis by (simp add: round_ctx_neg)
  qed
qed

lemma round_ctx_eq_0_iff: "round_ctx x = 0 \<longleftrightarrow> x = 0"
proof
  assume r: "round_ctx x = 0"
  show "x = 0"
  proof (rule ccontr)
    assume "x \<noteq> 0"
    then consider "0 < x" | "0 < - x" by linarith
    then show False
    proof cases
      case 1
      from round_ctx_pos [OF 1] r show False by simp
    next
      case 2
      from round_ctx_pos [OF 2] r show False by (simp add: round_ctx_neg)
    qed
  qed
qed simp

lemma quantum_le: "x \<noteq> 0 \<Longrightarrow> quantum x \<le> \<bar>x\<bar> / 10 ^ 27"
  using adjusted_bounds [of x] by (simp add: quantum_eq divide_right_mono)

lemma round_ctx_rel: "\<bar>round_ctx x - x\<bar> \<le> \<bar>x\<bar> / (2 * 10 ^ 27)"
proof (cases "x = 0")
  case True
  then show ?thesis by simp
next
  case False
  from quantum_le [OF False] round_ctx_err [of x] show ?thesis by simp
qed

section \<open>Properties of the balance loader\<close>

lemma read_rows_processed:
  "read_rows D rows sb = read_rows D (processed rows) sb"
  unfolding processed_def
  by (induction rows arbitrary: sb) (auto simp: Let_def split: sum.splits)

lemma read_rows_keys:
  "read_rows D rows sb = Inr sb' \<Longrightarrow> cash_symbol \<notin> fst ` set sb \<Longrightarrow> cash_symbol \<notin> fst ` set sb'"
proof (induction rows arbitrary: sb)
  case Nil
  then show ?case by simp
next
  case (Cons row rows)
  show ?case
  proof (cases "row = [] \<or> length row \<le> 5")
    case True
    with Cons.prems show ?thesis by (auto split: if_splits)
  next
    case False
    show ?thesis
    proof (cases "row ! 2 = cash_symbol")
      case True
      with False Cons.prems have "read_rows D rows sb = Inr sb'" by (simp add: Let_def)
      from Cons.IH [OF this Cons.prems(2)] show ?thesis .
    next
      case nc: False
      with False Cons.prems obtain b where b: "D (row ! 5) = Inr b"
        and r: "read_rows D rows (AList.update (row ! 2) b sb) = Inr sb'"
        by (auto simp: Let_def split: sum.splits)
      have "cash_symbol \<notin> fst ` set (AList.update (row ! 2) b sb)"
        using nc Cons.prems(2) by (simp add: dom_update)
      from Cons.IH [OF r this] show ?thesis .
    qed
  qed
qed

lemma read_rows_distinct:
  "read_rows D rows sb = Inr sb' \<Longrightarrow> distinct (map fst sb) \<Longrightarrow> distinct (map fst sb')"
proof (induction rows arbitrary: sb)
  case Nil
  then show ?case by simp
next
  case (Cons row rows)
  show ?case
  proof (cases "row = [] \<or> length row \<le> 5")
    case True
    with Cons.prems show ?thesis by (auto split: if_splits)
  next
    case False
    show ?thesis
    proof (cases "row ! 2 = cash_symbol")
      case True
      with False Cons.prems have "read_rows D rows sb = Inr sb'" by (simp add: Let_def)
      from Cons.IH [OF this Cons.prems(2)] show ?thesis .
    next
      case nc: False
      with False Cons.prems obtain b where b: "D (row ! 5) = Inr b"
        and r: "read_rows D rows (AList.update (row ! 2) b sb) = Inr sb'"
        by (auto simp: Let_def split: sum.splits)
      have "distinct (map fst (AList.update (row ! 2) b sb))"
        using Cons.prems(2) by (simp add: distinct_update)
      from Cons.IH [OF r this] show ?thesis .
    qed
  qed
qed

text \<open>
  What the loop leaves under a symbol: the balance of the last row naming it, or what
  the dictionary held before when no row names it; rows of the cash symbol change
  nothing.
\<close>

lemma read_rows_lookup:
  "read_rows D rows sb = Inr sb' \<Longrightarrow> [] \<notin> set rows \<Longrightarrow>
   map_of sb' s =
     (if s = cash_symbol then map_of sb s
      else case filter (\<lambda>row. row ! 2 = s) rows of
             [] \<Rightarrow> map_of sb s
           | r # rs \<Rightarrow> (case D (last (r # rs) ! 5) of Inl e \<Rightarrow> None | Inr b \<Rightarrow> Some b))"
proof (induction rows arbitrary: sb)
  case Nil
  then show ?case by simp
next
  case (Cons row rows)
  from Cons.prems(2) have ne: "row \<noteq> []" and blank: "[] \<notin> set rows" by auto
  show ?case
  proof (cases "length row \<le> 5")
    case True
    with ne Cons.prems(1) show ?thesis by simp
  next
    case long: False
    show ?thesis
    proof (cases "row ! 2 = cash_symbol")
      case True
      with ne long Cons.prems(1) have "read_rows D rows sb = Inr sb'" by (simp add: Let_def)
      from Cons.IH [OF this blank] True show ?thesis by auto
    next
      case nc: False
      with ne long Cons.prems(1) obtain b where b: "D (row ! 5) = Inr b"
        and r: "read_rows D rows (AList.update (row ! 2) b sb) = Inr sb'"
        by (auto simp: Let_def split: sum.splits)
      note IH = Cons.IH [OF r blank]
      show ?thesis
      proof (cases "row ! 2 = s")
        case False
        with IH nc show ?thesis by (auto simp: update_conv' split: list.splits)
      next
        case True
        with nc have s: "s \<noteq> cash_symbol" by auto
        show ?thesis
        proof (cases "filter (\<lambda>row. row ! 2 = s) rows")
          case Nil
          with IH s True b show ?thesis by (simp add: update_conv')
        next
          case (Cons r rs)
          with IH s True show ?thesis by simp
        qed
      qed
    qed
  qed
qed

lemma read_rows_blank:
  "read_rows D (before @ [] # after) sb = read_rows D before sb"
  by (induction before arbitrary: sb) (auto simp: Let_def split: sum.splits)

text \<open>
  Claim C10. The loader stops at the first blank row: whatever follows a blank row
  changes nothing, neither the dictionary nor the error. When the loader returns a
  dictionary, the cash symbol is not among its keys, and a symbol is bound to a balance
  exactly when it is not the cash symbol and that balance is the one parsed from the
  last row, among those before the first blank row, that names the symbol.
\<close>

theorem loader_stops_skips_cash_last_wins:
  "get_balance_dictionary D (header # before @ [] # after) =
     get_balance_dictionary D (header # before)
   \<and> (get_balance_dictionary D (header # rows) = Inr sb \<longrightarrow>
        cash_symbol \<notin> fst ` set sb
        \<and> distinct (map fst sb)
        \<and> (\<forall>s b. map_of sb s = Some b \<longleftrightarrow>
              s \<noteq> cash_symbol \<and> (\<exists>r. last_row_of s rows = Some r \<and> D (r ! 5) = Inr b)))"
proof (intro conjI impI allI)
  show "get_balance_dictionary D (header # before @ [] # after) =
     get_balance_dictionary D (header # before)"
    by (simp add: get_balance_dictionary_def read_rows_blank)
next
  assume a: "get_balance_dictionary D (header # rows) = Inr sb"
  then have r: "read_rows D (processed rows) [] = Inr sb"
    using read_rows_processed [of D rows "[]"] by (simp add: get_balance_dictionary_def)
  have nb: "[] \<notin> set (processed rows)"
    unfolding processed_def by (auto dest: set_takeWhileD)
  from read_rows_keys [OF r] show "cash_symbol \<notin> fst ` set sb" by simp
  from read_rows_distinct [OF r] show "distinct (map fst sb)" by simp
  fix s b
  show "map_of sb s = Some b \<longleftrightarrow>
    s \<noteq> cash_symbol \<and> (\<exists>r. last_row_of s rows = Some r \<and> D (r ! 5) = Inr b)"
    using read_rows_lookup [OF r nb, of s]
    by (auto simp: last_row_of_def split: list.splits sum.splits if_splits)
qed

theorem loader_stops_skips_cash_last_wins_witness:
  "get_balance_dictionary (\<lambda>s. if s = ''7'' then Inr (7::int) else if s = ''9'' then Inr 9 else Inl InvalidOperation)
     ([''h''] # [[''a'', ''b'', ''VTI'', ''c'', ''d'', ''9''],
                 [''a'', ''b'', ''VMFXX'', ''c'', ''d'', ''x''],
                 [''a'', ''b'', ''VTI'', ''c'', ''d'', ''7''],
                 [],
                 [''a'', ''b'', ''BND'', ''c'', ''d'', ''9'']]) = Inr [(''VTI'', 7)]
   \<and> cash_symbol \<notin> fst ` set [(''VTI'', 7::int)]
   \<and> (\<forall>s b. map_of [(''VTI'', 7::int)] s = Some b \<longleftrightarrow>
          s \<noteq> cash_symbol
          \<and> (\<exists>r. last_row_of s [[''a'', ''b'', ''VTI'', ''c'', ''d'', ''9''],
                 [''a'', ''b'', ''VMFXX'', ''c'', ''d'', ''x''],
                 [''a'', ''b'', ''VTI'', ''c'', ''d'', ''7''],
                 [],
                 [''a'', ''b'', ''BND'', ''c'', ''d'', ''9'']] = Some r
               \<and> (if r ! 5 = ''7'' then Inr (7::int) else if r ! 5 = ''9'' then Inr 9
                    else Inl InvalidOperation) = Inr b))"
proof -
  let ?D = "\<lambda>s. if s = ''7'' then Inr (7::int) else if s = ''9'' then Inr 9 else Inl InvalidOperation"
  let ?rows = "[[''a'', ''b'', ''VTI'', ''c'', ''d'', ''9''],
                 [''a'', ''b'', ''VMFXX'', ''c'', ''d'', ''x''],
                 [''a'', ''b'', ''VTI'', ''c'', ''d'', ''7''],
                 [],
                 [''a'', ''b'', ''BND'', ''c'', ''d'', ''9'']]"
  have h: "get_balance_dictionary ?D ([''h''] # ?rows) = Inr [(''VTI'', 7)]"
    by (simp add: get_balance_dictionary_def cash_symbol_def)
  from loader_stops_skips_cash_last_wins [of ?D "[''h'']" "[]" "[]" ?rows "[(''VTI'', 7)]"] h
  show ?thesis by blast
qed

section \<open>Properties of comprehensions and of the aggregator\<close>

lemma comprehension_map:
  "(\<And>k. k \<in> set ks \<Longrightarrow> f k = Inr (g k)) \<Longrightarrow> comprehension f ks = Inr (map (\<lambda>k. (k, g k)) ks)"
  by (induction ks) simp_all

lemma comprehension_Inr:
  "comprehension f ks = Inr d \<Longrightarrow>
     map fst d = ks \<and> (\<forall>(k, v) \<in> set d. f k = Inr v) \<and> (\<forall>k \<in> set ks. \<exists>v. f k = Inr v)"
proof (induction ks arbitrary: d)
  case Nil
  then show ?case by simp
next
  case (Cons k ks)
  from Cons.prems obtain v d' where v: "f k = Inr v" and d': "comprehension f ks = Inr d'"
    and d: "d = (k, v) # d'"
    by (auto split: sum.splits)
  from Cons.IH [OF d'] v d show ?case by auto
qed

lemma comprehension_Inl:
  "comprehension f ks = Inl e \<Longrightarrow> \<exists>k \<in> set ks. f k = Inl e"
  by (induction ks) (auto split: sum.splits)

lemma comprehension_lookup:
  assumes "comprehension f ks = Inr d" and "k \<in> set ks"
  shows "\<exists>v. f k = Inr v \<and> map_of d k = Some v"
  using assms
proof (induction ks arbitrary: d)
  case Nil
  then show ?case by simp
next
  case (Cons a ks)
  from Cons.prems(1) obtain v d' where v: "f a = Inr v" and d': "comprehension f ks = Inr d'"
    and d: "d = (a, v) # d'"
    by (auto split: sum.splits)
  show ?case
  proof (cases "k = a")
    case True
    with v d show ?thesis by simp
  next
    case False
    with Cons.prems(2) have "k \<in> set ks" by simp
    from Cons.IH [OF d' this] False d show ?thesis by simp
  qed
qed

lemma update_middle:
  "c \<notin> fst ` set before \<Longrightarrow>
   AList.update c v (before @ (c, w) # rest) = before @ (c, v) # rest"
  by (induction before) auto

lemma map_of_middle:
  "c \<notin> fst ` set before \<Longrightarrow> map_of (before @ (c, w) # rest) c = Some w"
  by (induction before) auto

lemma add_symbols_middle:
  assumes "c \<notin> fst ` set before"
  shows "add_symbols sb c syms (before @ (c, w) # rest) =
     Inr (before @ (c, foldl (\<lambda>running symbol. dec_add running (get_default sb symbol 0)) w syms) # rest)"
  using assms
proof (induction syms arbitrary: w)
  case Nil
  then show ?case by simp
next
  case (Cons s syms)
  have l: "lookup (before @ (c, w) # rest) c = Inr w"
    unfolding lookup_def by (simp only: map_of_middle [OF Cons.prems] option.case)
  show ?case
    by (simp only: add_symbols.simps l sum.case update_middle [OF Cons.prems]
        Cons.IH [OF Cons.prems] foldl_Cons)
qed

lemma add_categories_eq:
  assumes "distinct (map fst done @ map fst cats)"
  shows "add_categories sb cats (done @ map (\<lambda>(category, symbols). (category, 0)) cats) =
     Inr (done @ map (\<lambda>(category, symbols). (category, category_total sb symbols)) cats)"
  using assms
proof (induction cats arbitrary: "done")
  case Nil
  then show ?case by simp
next
  case (Cons a cats)
  obtain c syms where a: "a = (c, syms)" by (cases a)
  from Cons.prems a have c: "c \<notin> fst ` set done" by auto
  from Cons.prems a have d: "distinct (map fst (done @ [(c, category_total sb syms)]) @ map fst cats)"
    by auto
  from Cons.IH [OF d] show ?case
    by (simp add: a add_symbols_middle [OF c] category_total_def)
qed

lemma get_category_totals_eq:
  assumes "distinct (map fst categories)"
  shows "get_category_totals sb categories =
     Inr (map (\<lambda>(category, symbols). (category, category_total sb symbols)) categories)"
  using add_categories_eq [of "[]" categories sb] assms
  by (simp add: get_category_totals_def)

lemma category_total_rounded: "round_ctx (category_total sb syms) = category_total sb syms"
proof (cases syms rule: rev_cases)
  case Nil
  then show ?thesis by (simp add: category_total_def)
next
  case (snoc ys y)
  then show ?thesis by (simp add: category_total_def dec_add_def round_ctx_idem)
qed


lemma round_ctx_of_int: "\<bar>n\<bar> \<le> 10 ^ 28 \<Longrightarrow> round_ctx (of_int n) = of_int n"
  using round_ctx_exact [of n 0] by simp

lemma category_total_absent:
  "(\<And>s. s \<in> set syms \<Longrightarrow> map_of sb s = None) \<Longrightarrow> category_total sb syms = 0"
proof (induction syms rule: rev_induct)
  case Nil
  then show ?case by (simp add: category_total_def)
next
  case (snoc s syms)
  then have "category_total sb syms = 0" by simp
  moreover from snoc.prems have "get_default sb s 0 = 0" by (simp add: get_default_def)
  ultimately show ?case by (simp add: category_total_def dec_add_def)
qed

lemma category_total_skip:
  assumes "map_of sb s = None"
  shows "category_total sb (before @ s # after) = category_total sb (before @ after)"
proof -
  from assms have "get_default sb s 0 = 0" by (simp add: get_default_def)
  moreover have "dec_add (category_total sb before) 0 = category_total sb before"
    by (simp add: dec_add_def category_total_rounded)
  ultimately show ?thesis by (simp add: category_total_def)
qed

lemma map_of_totals:
  assumes "distinct (map fst categories)" and "(c, syms) \<in> set categories"
  shows "map_of (map (\<lambda>(category, symbols). (category, g symbols)) categories) c = Some (g syms)"
proof -
  have k: "map fst (map (\<lambda>(category, symbols). (category, g symbols)) categories) = map fst categories"
    by (induction categories) auto
  have "distinct (map fst (map (\<lambda>(category, symbols). (category, g symbols)) categories))"
    unfolding k by (rule assms(1))
  moreover from assms(2) have "(c, g syms) \<in> set (map (\<lambda>(category, symbols). (category, g symbols)) categories)"
    by force
  ultimately show ?thesis by (simp only: map_of_eq_Some_iff)
qed

section \<open>Properties of sums and of the capping\<close>

lemma foldl_dec_add_nonneg:
  "0 \<le> a \<Longrightarrow> (\<And>x. x \<in> set xs \<Longrightarrow> 0 \<le> x) \<Longrightarrow> 0 \<le> foldl dec_add a xs"
proof (induction xs arbitrary: a)
  case Nil
  then show ?case by simp
next
  case (Cons x xs)
  from Cons.prems have "0 \<le> dec_add a x" by (simp add: dec_add_def round_ctx_nonneg)
  with Cons show ?case by simp
qed

lemma py_sum_nonneg: "(\<And>x. x \<in> set xs \<Longrightarrow> 0 \<le> x) \<Longrightarrow> 0 \<le> py_sum xs"
  unfolding py_sum_def by (rule foldl_dec_add_nonneg) simp_all

lemma foldl_dec_add_zero:
  "0 \<le> a \<Longrightarrow> (\<And>x. x \<in> set xs \<Longrightarrow> 0 \<le> x) \<Longrightarrow> foldl dec_add a xs = 0 \<Longrightarrow>
   a = 0 \<and> (\<forall>x \<in> set xs. x = 0)"
proof (induction xs arbitrary: a)
  case Nil
  then show ?case by simp
next
  case (Cons x xs)
  from Cons.prems have nn: "0 \<le> dec_add a x" by (simp add: dec_add_def round_ctx_nonneg)
  from Cons.prems(3) have "foldl dec_add (dec_add a x) xs = 0" by simp
  from Cons.IH [OF nn _ this] Cons.prems(2)
  have z: "dec_add a x = 0" and r: "\<forall>y \<in> set xs. y = 0" by simp_all
  from z have "a + x = 0" by (simp add: dec_add_def round_ctx_eq_0_iff)
  with Cons.prems(1) Cons.prems(2) [of x] have "a = 0" "x = 0" by simp_all
  with r show ?case by simp
qed

lemma py_sum_zero:
  "(\<And>x. x \<in> set xs \<Longrightarrow> 0 \<le> x) \<Longrightarrow> py_sum xs = 0 \<Longrightarrow> \<forall>x \<in> set xs. x = 0"
  unfolding py_sum_def using foldl_dec_add_zero [of 0 xs] by simp

lemma py_sum_zeros: "(\<And>x. x \<in> set xs \<Longrightarrow> x = 0) \<Longrightarrow> py_sum xs = 0"
proof (induction xs rule: rev_induct)
  case Nil
  then show ?case by (simp add: py_sum_def)
next
  case (snoc x xs)
  then have "py_sum xs = 0" "x = 0" by simp_all
  then show ?case by (simp add: py_sum_def dec_add_def)
qed

lemma py_sum_rounded: "round_ctx (py_sum xs) = py_sum xs"
proof (cases xs rule: rev_cases)
  case Nil
  then show ?thesis by (simp add: py_sum_def)
next
  case (snoc ys y)
  then show ?thesis by (simp add: py_sum_def dec_add_def round_ctx_idem)
qed

lemma lookup_key: "k \<in> fst ` set d \<Longrightarrow> \<exists>v. lookup d k = Inr v \<and> map_of d k = Some v"
  by (cases "map_of d k") (auto simp: lookup_def map_of_eq_None_iff)

lemma lookup_Some: "map_of d k = Some v \<Longrightarrow> lookup d k = Inr v"
  by (simp add: lookup_def)

lemma lookup_None: "map_of d k = None \<Longrightarrow> lookup d k = Inl KeyError"
  by (simp add: lookup_def)

lemma dec_div_nonzero: "b \<noteq> 0 \<Longrightarrow> dec_div a b = Inr (round_ctx (a / b))"
  by (simp add: dec_div_def)

lemma map_keys_values:
  assumes "distinct (map fst d)"
  shows "map (\<lambda>k. (k, g (the (map_of d k)))) (map fst d) = map (\<lambda>(k, v). (k, g v)) d"
proof -
  have "(\<lambda>k. (k, g (the (map_of d k)))) (fst p) = (\<lambda>(k, v). (k, g v)) p" if "p \<in> set d" for p
  proof -
    obtain k v where p: "p = (k, v)" by (cases p)
    with that assms have "map_of d k = Some v" by simp
    with p show ?thesis by simp
  qed
  then show ?thesis by (simp add: comp_def)
qed

lemma cap_to_investment_scaled:
  assumes "0 \<le> investment_amount" and "investment_amount < total_needed needed"
  shows "cap_to_investment investment_amount needed =
     Inr (map (\<lambda>k. (k, dec_mul investment_amount
                       (round_ctx (the (map_of needed k) / total_needed needed))))
            (map fst needed))"
proof -
  from assms have nz: "total_needed needed \<noteq> 0" by simp
  have "(case lookup needed k of
           Inl e \<Rightarrow> Inl e
         | Inr n \<Rightarrow>
             (case dec_div n (total_needed needed) of
                Inl e \<Rightarrow> Inl e
              | Inr share \<Rightarrow> Inr (dec_mul investment_amount share))) =
        Inr (dec_mul investment_amount (round_ctx (the (map_of needed k) / total_needed needed)))"
    if "k \<in> set (map fst needed)" for k
  proof -
    from that obtain v where "lookup needed k = Inr v" "map_of needed k = Some v"
      using lookup_key [of k needed] by auto
    then show ?thesis by (simp add: dec_div_nonzero [OF nz])
  qed
  from comprehension_map [of "map fst needed" _ _, OF this] assms(2)
  show ?thesis by (simp add: cap_to_investment_def)
qed

lemma cap_to_investment_unscaled:
  "total_needed needed \<le> investment_amount \<Longrightarrow> cap_to_investment investment_amount needed = Inr needed"
  by (simp add: cap_to_investment_def)

text \<open>Evaluating the model on numerals.\<close>

lemma round_ctx_numeral:
  "numeral n \<le> (10::int) ^ 28 \<Longrightarrow> round_ctx (numeral n) = numeral n"
  using round_ctx_of_int [of "numeral n"] by simp

lemma round_ctx_neg_numeral:
  "numeral n \<le> (10::int) ^ 28 \<Longrightarrow> round_ctx (- numeral n) = - numeral n"
  using round_ctx_of_int [of "- numeral n"] by simp

lemma round_ctx_1: "round_ctx 1 = 1"
  using round_ctx_of_int [of 1] by simp

lemma round_ctx_neg_1: "round_ctx (- 1) = - 1"
  using round_ctx_of_int [of "- 1"] by simp

lemmas eval_simps = round_ctx_numeral round_ctx_neg_numeral round_ctx_1 round_ctx_neg_1
  dec_add_def dec_sub_def dec_mul_def dec_div_def py_sum_def lookup_def get_default_def
  total_needed_def total_balance_def resulting_total_balance_def

lemma comprehension_first_fails:
  "ks \<noteq> [] \<Longrightarrow> f (hd ks) = Inl e \<Longrightarrow> comprehension f ks = Inl e"
  by (cases ks) simp_all

section \<open>Properties of the distributor\<close>

lemma map_of_desired:
  "map_of (get_desired_balances amt tb target) c =
     map_option (dec_mul (dec_add tb amt)) (map_of target c)"
  by (simp add: get_desired_balances_def Let_def map_of_map)

lemma shortfall_step:
  assumes "(case lookup (get_desired_balances amt tb target) c of
              Inl e \<Rightarrow> Inl e
            | Inr desired \<Rightarrow>
                (case lookup ct c of
                   Inl e \<Rightarrow> Inl e
                 | Inr current \<Rightarrow> Inr (max (dec_sub desired current) 0))) = Inr v"
  shows "\<exists>f t. map_of target c = Some f \<and> map_of ct c = Some t \<and> v = desired_shortfall tb amt f t"
proof -
  from assms obtain d t where d: "map_of (get_desired_balances amt tb target) c = Some d"
    and t: "map_of ct c = Some t" and v: "v = max (dec_sub d t) 0"
    by (auto simp: lookup_def split: option.splits)
  from d obtain f where f: "map_of target c = Some f" and "d = dec_mul (dec_add tb amt) f"
    by (auto simp: map_of_desired)
  with t v show ?thesis by (auto simp: desired_shortfall_def max.commute)
qed

lemma shortfalls_lookup:
  assumes "shortfalls (get_desired_balances amt tb target) ct cats = Inr n0"
    and "c \<in> fst ` set cats"
  shows "\<exists>f t. map_of target c = Some f \<and> map_of ct c = Some t
           \<and> map_of n0 c = Some (desired_shortfall tb amt f t)"
proof -
  from assms(2) have "c \<in> set (map fst cats)" by simp
  from comprehension_lookup [OF assms(1) [unfolded shortfalls_def] this]
  obtain v where s: "(case lookup (get_desired_balances amt tb target) c of
              Inl e \<Rightarrow> Inl e
            | Inr desired \<Rightarrow>
                (case lookup ct c of
                   Inl e \<Rightarrow> Inl e
                 | Inr current \<Rightarrow> Inr (max (dec_sub desired current) 0))) = Inr v"
    and m: "map_of n0 c = Some v" by blast
  from shortfall_step [OF s] m show ?thesis by auto
qed

lemma shortfalls_keys:
  "shortfalls desired ct cats = Inr n0 \<Longrightarrow> map fst n0 = map fst cats"
  unfolding shortfalls_def by (drule comprehension_Inr) simp

lemma shortfalls_nonneg:
  assumes "shortfalls desired ct cats = Inr n0" and "(c, v) \<in> set n0"
  shows "0 \<le> v"
proof -
  from comprehension_Inr [OF assms(1) [unfolded shortfalls_def]] assms(2)
  have "(case lookup desired c of
              Inl e \<Rightarrow> Inl e
            | Inr d \<Rightarrow>
                (case lookup ct c of
                   Inl e \<Rightarrow> Inl e
                 | Inr current \<Rightarrow> Inr (max (dec_sub d current) 0))) = Inr v"
    by auto
  then show ?thesis by (auto split: sum.splits)
qed

lemma shortfalls_total:
  assumes "\<And>c. c \<in> fst ` set cats \<Longrightarrow> c \<in> fst ` set target \<and> c \<in> fst ` set ct"
  shows "\<exists>n0. shortfalls (get_desired_balances amt tb target) ct cats = Inr n0"
proof -
  let ?g = "\<lambda>c. max (dec_sub (dec_mul (dec_add tb amt) (the (map_of target c))) (the (map_of ct c))) 0"
  have "(case lookup (get_desired_balances amt tb target) c of
              Inl e \<Rightarrow> Inl e
            | Inr desired \<Rightarrow>
                (case lookup ct c of
                   Inl e \<Rightarrow> Inl e
                 | Inr current \<Rightarrow> Inr (max (dec_sub desired current) 0))) = Inr (?g c)"
    if "c \<in> set (map fst cats)" for c
  proof -
    from that assms [of c] obtain f t where "map_of target c = Some f" "map_of ct c = Some t"
      using lookup_key [of c target] lookup_key [of c ct] by auto
    then show ?thesis by (simp add: lookup_def map_of_desired)
  qed
  from comprehension_map [of "map fst cats" _ ?g, OF this] show ?thesis
    unfolding shortfalls_def by blast
qed

lemma totals_keys:
  "map fst (map (\<lambda>(category, symbols). (category, g symbols)) categories) = map fst categories"
  by (induction categories) auto

lemma get_category_totals_props:
  assumes "distinct (map fst categories)"
    and "get_category_totals sb categories = Inr ct"
  shows "map fst ct = map fst categories"
    and "distinct (map fst ct)"
    and "\<And>c t. (c, t) \<in> set ct \<Longrightarrow> round_ctx t = t"
proof -
  from get_category_totals_eq [OF assms(1), of sb] assms(2)
  have ct: "ct = map (\<lambda>(category, symbols). (category, category_total sb symbols)) categories"
    by simp
  show k: "map fst ct = map fst categories" unfolding ct by (rule totals_keys)
  show "distinct (map fst ct)" unfolding k by (rule assms(1))
  fix c t
  assume "(c, t) \<in> set ct"
  then obtain syms where "t = category_total sb syms" unfolding ct by auto
  then show "round_ctx t = t" by (simp add: category_total_rounded)
qed

lemma all_zero_dict:
  assumes "\<And>k v. (k, v) \<in> set d \<Longrightarrow> v = 0"
  shows "d = map (\<lambda>k. (k, 0)) (map fst d)"
proof -
  have "p = (fst p, 0)" if "p \<in> set d" for p
    using assms [of "fst p" "snd p"] that by (cases p) simp
  then have "map (\<lambda>p. p) d = map (\<lambda>p. (fst p, 0)) d" by (intro map_cong) auto
  then show ?thesis by (simp add: comp_def)
qed

lemma cap_to_investment_props:
  assumes "0 \<le> amt" and "\<And>c v. (c, v) \<in> set n0 \<Longrightarrow> 0 \<le> v"
  shows "\<exists>n1. cap_to_investment amt n0 = Inr n1 \<and> map fst n1 = map fst n0
           \<and> (\<forall>(c, v) \<in> set n1. 0 \<le> v)"
proof (cases "amt < total_needed n0")
  case True
  let ?g = "\<lambda>k. dec_mul amt (round_ctx (the (map_of n0 k) / total_needed n0))"
  let ?n1 = "map (\<lambda>k. (k, ?g k)) (map fst n0)"
  from True assms(1) have T: "0 < total_needed n0" by simp
  have "0 \<le> ?g k" if "k \<in> set (map fst n0)" for k
  proof -
    from that obtain v where "map_of n0 k = Some v"
      using lookup_key [of k n0] by auto
    then have "0 \<le> the (map_of n0 k)" using assms(2) [of k v] by (auto dest: map_of_SomeD)
    with T assms(1) show ?thesis by (simp add: dec_mul_def round_ctx_nonneg)
  qed
  then have "\<forall>(c, v) \<in> set ?n1. 0 \<le> v" by auto
  moreover have "map fst ?n1 = map fst n0" by (simp add: comp_def)
  ultimately show ?thesis using cap_to_investment_scaled [OF assms(1) True] by blast
next
  case False
  with assms(2) show ?thesis by (auto simp: cap_to_investment_def)
qed

lemma resulting_totals_eq:
  assumes "\<And>c. c \<in> fst ` set cats \<Longrightarrow> c \<in> fst ` set ct \<and> c \<in> fst ` set n"
  shows "resulting_totals ct n cats =
     Inr (map (\<lambda>c. (c, dec_add (the (map_of ct c)) (the (map_of n c)))) (map fst cats))"
proof -
  have "(case lookup ct c of
            Inl e \<Rightarrow> Inl e
          | Inr current \<Rightarrow>
              (case lookup n c of
                 Inl e \<Rightarrow> Inl e
               | Inr v \<Rightarrow> Inr (dec_add current v))) =
        Inr (dec_add (the (map_of ct c)) (the (map_of n c)))"
    if "c \<in> set (map fst cats)" for c
  proof -
    from that assms [of c] obtain t v where "map_of ct c = Some t" "map_of n c = Some v"
      using lookup_key [of c ct] lookup_key [of c n] by auto
    then show ?thesis by (simp add: lookup_def)
  qed
  from comprehension_map [of "map fst cats" _ _, OF this] show ?thesis
    unfolding resulting_totals_def .
qed

lemma dict_as_keys:
  assumes "distinct (map fst d)"
  shows "map (\<lambda>k. (k, the (map_of d k))) (map fst d) = d"
  using map_keys_values [OF assms, of "\<lambda>v. v"] by simp

lemma map_of_keys_map:
  "c \<in> set ks \<Longrightarrow> map_of (map (\<lambda>k. (k, g k)) ks) c = Some (g c)"
proof -
  assume c: "c \<in> set ks"
  have "map_of (map (\<lambda>k. (k, g k)) ks) c = ((Some \<circ> g) |` set ks) c"
    by (simp only: map_of_map_restrict)
  with c show ?thesis by (simp add: restrict_map_def)
qed

lemma needed_investments_Inr:
  assumes "needed_investments amt ct target cats = Inr n"
  obtains n0 where "shortfalls (get_desired_balances amt (total_balance ct) target) ct cats = Inr n0"
    and "cap_to_investment amt n0 = Inr n"
  using assms by (auto simp: needed_investments_def split: sum.splits)

lemma resulting_totals_keys:
  "resulting_totals ct n cats = Inr rt \<Longrightarrow> map fst rt = map fst cats"
  unfolding resulting_totals_def by (drule comprehension_Inr) simp

lemma resulting_allocations_fails_iff:
  assumes "map fst rt = map fst cats"
  shows "isl (resulting_allocations rt cats) \<longleftrightarrow> resulting_total_balance rt = 0 \<and> cats \<noteq> []"
proof (cases "resulting_total_balance rt = 0")
  case z: True
  show ?thesis
  proof (cases cats)
    case Nil
    then show ?thesis by (simp add: resulting_allocations_def)
  next
    case (Cons a cats')
    then have ne: "map fst cats \<noteq> []" by simp
    have "hd (map fst cats) \<in> fst ` set rt"
      using ne assms by (metis list.set_sel(1) set_map)
    then obtain r where r: "lookup rt (hd (map fst cats)) = Inr r"
      using lookup_key [of _ rt] by blast
    obtain e where de: "dec_div r (resulting_total_balance rt) = Inl e"
      by (cases "r = 0") (simp_all add: dec_div_def z)
    have "resulting_allocations rt cats = Inl e"
      unfolding resulting_allocations_def
      by (rule comprehension_first_fails [OF ne]) (simp add: r de)
    with z Cons show ?thesis by simp
  qed
next
  case nz: False
  have "(case lookup rt c of
            Inl e \<Rightarrow> Inl e
          | Inr current \<Rightarrow> dec_div current (resulting_total_balance rt)) =
        Inr (round_ctx (the (map_of rt c) / resulting_total_balance rt))"
    if "c \<in> set (map fst cats)" for c
  proof -
    from that assms have "c \<in> fst ` set rt" by (metis set_map)
    then obtain r where "lookup rt c = Inr r" "map_of rt c = Some r"
      using lookup_key [of c rt] by blast
    then show ?thesis by (simp add: dec_div_nonzero [OF nz])
  qed
  from comprehension_map [of "map fst cats" _ _, OF this]
  have "\<not> isl (resulting_allocations rt cats)" by (simp add: resulting_allocations_def)
  with nz show ?thesis by simp
qed

lemma desired_shortfall_pos:
  assumes "0 < amt" and "0 < f"
  shows "0 < desired_shortfall 0 amt f 0"
proof -
  from assms(1) have "0 < round_ctx (0 + amt)" by (simp add: round_ctx_pos)
  then have "0 < round_ctx (0 + amt) * f" using assms(2) by (rule mult_pos_pos)
  then have "0 < round_ctx (round_ctx (0 + amt) * f)" by (rule round_ctx_pos)
  then have "0 < round_ctx (round_ctx (round_ctx (0 + amt) * f) - 0)"
    by (intro round_ctx_pos) simp
  then show ?thesis
    by (simp add: desired_shortfall_def dec_add_def dec_mul_def dec_sub_def)
qed

section \<open>Sums that need no rounding\<close>

lemma on_grid_iff: "on_grid k x \<longleftrightarrow> (\<exists>n. x = of_int n * 10 powi k)"
proof
  assume "on_grid k x"
  then have "x = of_int \<lfloor>x / 10 powi k\<rfloor> * 10 powi k" by (simp add: on_grid_def)
  then show "\<exists>n. x = of_int n * 10 powi k" ..
next
  assume "\<exists>n. x = of_int n * 10 powi k"
  then obtain n where "x = of_int n * 10 powi k" ..
  then show "on_grid k x" by (simp add: on_grid_def)
qed

lemma on_grid_0: "on_grid k 0"
  by (simp add: on_grid_def)

lemma on_grid_add: "on_grid k a \<Longrightarrow> on_grid k b \<Longrightarrow> on_grid k (a + b)"
proof -
  assume "on_grid k a" "on_grid k b"
  then obtain m n where "a = of_int m * 10 powi k" "b = of_int n * 10 powi k"
    unfolding on_grid_iff by blast
  then have "a + b = of_int (m + n) * 10 powi k" by (simp add: algebra_simps)
  then show ?thesis unfolding on_grid_iff ..
qed

lemma on_grid_sum_list: "(\<And>x. x \<in> set xs \<Longrightarrow> on_grid k x) \<Longrightarrow> on_grid k (sum_list xs)"
  by (induction xs) (simp_all add: on_grid_0 on_grid_add)

lemma round_ctx_on_grid:
  assumes "on_grid k x" and "\<bar>x\<bar> \<le> 10 powi (k + 28)"
  shows "round_ctx x = x"
proof -
  from assms(1) obtain n where x: "x = of_int n * 10 powi k" unfolding on_grid_iff ..
  have p: "(0::rat) < 10 powi k" by (rule powi_pos)
  from assms(2) have "\<bar>of_int n\<bar> * 10 powi k \<le> (10::rat) ^ 28 * 10 powi k"
    using p by (simp add: x abs_mult power_int_add mult.commute)
  with p have "\<bar>of_int n :: rat\<bar> \<le> 10 ^ 28" by simp
  then have "(of_int \<bar>n\<bar> :: rat) \<le> of_int (10 ^ 28)" by simp
  then have "\<bar>n\<bar> \<le> 10 ^ 28" by (simp only: of_int_le_iff)
  from round_ctx_exact [OF this, of k] show ?thesis by (simp add: x)
qed

lemma foldl_dec_add_exact:
  assumes "on_grid k a" and "\<And>x. x \<in> set xs \<Longrightarrow> on_grid k x"
    and "\<bar>a\<bar> + sum_list (map abs xs) \<le> 10 powi (k + 28)"
  shows "foldl dec_add a xs = a + sum_list xs"
  using assms
proof (induction xs arbitrary: a)
  case Nil
  then show ?case by simp
next
  case (Cons x xs)
  have g: "on_grid k (a + x)" using Cons.prems(1,2) by (simp add: on_grid_add)
  have "0 \<le> sum_list (map abs xs)" by (rule sum_list_nonneg) auto
  with Cons.prems(3) have "\<bar>a + x\<bar> \<le> 10 powi (k + 28)" by simp
  from round_ctx_on_grid [OF g this] have e: "dec_add a x = a + x" by (simp add: dec_add_def)
  have "\<bar>a + x\<bar> + sum_list (map abs xs) \<le> 10 powi (k + 28)" using Cons.prems(3) by simp
  from Cons.IH [OF g _ this] Cons.prems(2) e show ?case by simp
qed

lemma py_sum_exact:
  assumes "\<And>x. x \<in> set xs \<Longrightarrow> on_grid k x"
    and "sum_list (map abs xs) \<le> 10 powi (k + 28)"
  shows "py_sum xs = sum_list xs"
  unfolding py_sum_def
  using foldl_dec_add_exact [of k 0 xs] assms by (simp add: on_grid_0)

lemma sum_list_concat_eq: "sum_list (concat xss) = sum_list (map sum_list xss)"
  for xss :: "rat list list"
  by (induction xss) simp_all

lemma py_sum_nested_exact:
  assumes "\<And>x. x \<in> set (concat xss) \<Longrightarrow> on_grid k x"
    and "sum_list (map abs (concat xss)) \<le> 10 powi (k + 28)"
  shows "py_sum (map py_sum xss) = sum_list (concat xss)"
proof -
  have le: "sum_list (map abs xs) \<le> sum_list (map abs (concat xss))" if "xs \<in> set xss" for xs
  proof -
    from that obtain before after where "xss = before @ xs # after" by (auto dest: split_list)
    moreover have "0 \<le> sum_list (map abs (concat before))" "0 \<le> sum_list (map abs (concat after))"
      by (rule sum_list_nonneg, auto)+
    ultimately show ?thesis by simp
  qed
  have inner: "py_sum xs = sum_list xs" if "xs \<in> set xss" for xs
  proof (rule py_sum_exact)
    fix x assume "x \<in> set xs"
    with that show "on_grid k x" by (intro assms(1)) auto
  next
    from le [OF that] assms(2) show "sum_list (map abs xs) \<le> 10 powi (k + 28)" by simp
  qed
  then have e1: "map py_sum xss = map sum_list xss" by (intro map_cong) auto
  have e2: "py_sum (map sum_list xss) = sum_list (map sum_list xss)"
  proof (rule py_sum_exact)
    fix x assume "x \<in> set (map sum_list xss)"
    then obtain xs where xs: "xs \<in> set xss" and x: "x = sum_list xs" by auto
    have "on_grid k (sum_list xs)"
    proof (rule on_grid_sum_list)
      fix y assume "y \<in> set xs"
      with xs show "on_grid k y" by (intro assms(1)) auto
    qed
    with x show "on_grid k x" by simp
  next
    have "sum_list (map abs (map sum_list xss)) \<le> sum_list (map abs (concat xss))"
    proof (induction xss)
      case Nil
      then show ?case by simp
    next
      case (Cons xs xss)
      have "\<bar>sum_list xs\<bar> \<le> sum_list (map abs xs)" by (rule sum_list_abs)
      with Cons show ?case by simp
    qed
    with assms(2) show "sum_list (map abs (map sum_list xss)) \<le> 10 powi (k + 28)" by simp
  qed
  show ?thesis by (simp only: e1 e2 sum_list_concat_eq)
qed

lemma get_default_Cons_other:
  "s \<noteq> s0 \<Longrightarrow> get_default ((s0, b0) # sb) s d = get_default sb s d"
  by (simp add: get_default_def)

lemma sum_over_symbols:
  fixes f :: "rat \<Rightarrow> rat"
  assumes "f 0 = 0" and "distinct (map fst sb)"
    and "\<And>s. s \<in> fst ` set sb \<Longrightarrow> count_list L s = 1"
  shows "sum_list (map (\<lambda>s. f (get_default sb s 0)) L) = sum_list (map (\<lambda>(s, b). f b) sb)"
  using assms(2,3)
proof (induction sb arbitrary: L)
  case Nil
  have "sum_list (map (\<lambda>s. f (get_default [] s 0)) L) = 0"
    by (induction L) (simp_all add: get_default_def assms(1))
  then show ?case by simp
next
  case (Cons a sb)
  obtain s0 b0 where a: "a = (s0, b0)" by (cases a)
  from Cons.prems(2) [of s0] a have "count_list L s0 = Suc 0" by simp
  from count_list_Suc_split_first [OF this]
  obtain pref rest where L: "L = pref @ s0 # rest" and np: "s0 \<notin> set pref"
    and "count_list rest s0 = 0" by blast
  then have nr: "s0 \<notin> set rest" by (simp add: count_list_0_iff)
  from Cons.prems(1) a have d: "distinct (map fst sb)" and nk: "s0 \<notin> fst ` set sb" by auto
  have cnt: "count_list (pref @ rest) s = 1" if "s \<in> fst ` set sb" for s
  proof -
    from that nk have "s \<noteq> s0" by auto
    moreover from that have "count_list L s = 1" by (intro Cons.prems(2)) (simp add: a)
    ultimately show ?thesis by (simp add: L)
  qed
  have other: "map (\<lambda>s. f (get_default (a # sb) s 0)) xs = map (\<lambda>s. f (get_default sb s 0)) xs"
    if "s0 \<notin> set xs" for xs
  proof (rule map_cong [OF refl])
    fix x assume "x \<in> set xs"
    with that have "x \<noteq> s0" by auto
    then show "f (get_default (a # sb) x 0) = f (get_default sb x 0)"
      by (simp add: a get_default_Cons_other)
  qed
  have "sum_list (map (\<lambda>s. f (get_default (a # sb) s 0)) L) =
      sum_list (map (\<lambda>s. f (get_default sb s 0)) pref) + f b0
      + sum_list (map (\<lambda>s. f (get_default sb s 0)) rest)"
    by (simp add: L other [OF np] other [OF nr]) (simp add: a get_default_def)
  also have "\<dots> = f b0 + sum_list (map (\<lambda>s. f (get_default sb s 0)) (pref @ rest))" by simp
  also have "\<dots> = f b0 + sum_list (map (\<lambda>(s, b). f b) sb)"
    by (simp only: Cons.IH [OF d cnt])
  finally show ?case by (simp add: a)
qed

lemma category_total_py_sum:
  "category_total sb syms = py_sum (map (\<lambda>s. get_default sb s 0) syms)"
  by (simp add: category_total_def py_sum_def foldl_map)

lemma round_29_up: "round_ctx 10000000000000000000000000008 = 10000000000000000000000000010"
  by code_simp

lemma round_29_down: "round_ctx 10000000000000000000000000004 = 10000000000000000000000000000"
  by code_simp

section \<open>Rounding error of the capping\<close>

lemma unit_roundoff_pos: "0 < unit_roundoff"
  by (simp add: unit_roundoff_def)

lemma unit_roundoff_less_1: "unit_roundoff < 1"
  by (simp add: unit_roundoff_def)

lemma round_ctx_bounds:
  assumes "0 \<le> x"
  shows "(1 - unit_roundoff) * x \<le> round_ctx x" and "round_ctx x \<le> (1 + unit_roundoff) * x"
proof -
  from round_ctx_rel [of x] assms have "\<bar>round_ctx x - x\<bar> \<le> unit_roundoff * x"
    by (simp add: unit_roundoff_def)
  then have "x - unit_roundoff * x \<le> round_ctx x" "round_ctx x \<le> x + unit_roundoff * x"
    by linarith+
  then show "(1 - unit_roundoff) * x \<le> round_ctx x" and "round_ctx x \<le> (1 + unit_roundoff) * x"
    by (simp_all add: algebra_simps)
qed

lemma foldl_dec_add_lower:
  assumes "0 \<le> a" and "\<And>x. x \<in> set xs \<Longrightarrow> 0 \<le> x"
  shows "(1 - unit_roundoff) ^ length xs * (a + sum_list xs) \<le> foldl dec_add a xs"
  using assms
proof (induction xs arbitrary: a)
  case Nil
  then show ?case by simp
next
  case (Cons x xs)
  let ?u = unit_roundoff
  let ?S = "sum_list xs"
  have x: "0 \<le> x" using Cons.prems(2) by simp
  have S: "0 \<le> ?S" using Cons.prems(2) by (intro sum_list_nonneg) simp
  have p: "0 \<le> (1 - ?u) ^ length xs" using unit_roundoff_less_1 by simp
  have a': "0 \<le> dec_add a x" using Cons.prems(1) x by (simp add: dec_add_def round_ctx_nonneg)
  have "(1 - ?u) * (a + x) \<le> dec_add a x"
    unfolding dec_add_def using Cons.prems(1) x by (intro round_ctx_bounds) simp
  moreover have "(1 - ?u) * ?S \<le> ?S"
    using S unit_roundoff_pos by (simp add: mult_left_le_one_le algebra_simps)
  ultimately have "(1 - ?u) * (a + x + ?S) \<le> dec_add a x + ?S" by (simp add: algebra_simps)
  then have "(1 - ?u) ^ length xs * ((1 - ?u) * (a + x + ?S)) \<le> (1 - ?u) ^ length xs * (dec_add a x + ?S)"
    using p by (rule mult_left_mono)
  also have "\<dots> \<le> foldl dec_add (dec_add a x) xs"
    using Cons.prems(2) by (intro Cons.IH [OF a']) simp
  finally show ?case by (simp add: algebra_simps)
qed

lemma foldl_dec_add_upper:
  assumes "0 \<le> a" and "\<And>x. x \<in> set xs \<Longrightarrow> 0 \<le> x"
  shows "foldl dec_add a xs \<le> (1 + unit_roundoff) ^ length xs * (a + sum_list xs)"
  using assms
proof (induction xs arbitrary: a)
  case Nil
  then show ?case by simp
next
  case (Cons x xs)
  let ?u = unit_roundoff
  let ?S = "sum_list xs"
  have x: "0 \<le> x" using Cons.prems(2) by simp
  have S: "0 \<le> ?S" using Cons.prems(2) by (intro sum_list_nonneg) simp
  have p: "0 \<le> (1 + ?u) ^ length xs" using unit_roundoff_pos by simp
  have a': "0 \<le> dec_add a x" using Cons.prems(1) x by (simp add: dec_add_def round_ctx_nonneg)
  have "dec_add a x \<le> (1 + ?u) * (a + x)"
    unfolding dec_add_def using Cons.prems(1) x by (intro round_ctx_bounds) simp
  moreover have "?S \<le> (1 + ?u) * ?S"
    using S unit_roundoff_pos by (simp add: algebra_simps)
  ultimately have le: "dec_add a x + ?S \<le> (1 + ?u) * (a + x + ?S)" by (simp add: algebra_simps)
  have "foldl dec_add (dec_add a x) xs \<le> (1 + ?u) ^ length xs * (dec_add a x + ?S)"
    using Cons.prems(2) by (intro Cons.IH [OF a']) simp
  also have "\<dots> \<le> (1 + ?u) ^ length xs * ((1 + ?u) * (a + x + ?S))"
    using le p by (rule mult_left_mono)
  finally show ?case by (simp add: algebra_simps)
qed

lemma py_sum_bounds:
  assumes "\<And>x. x \<in> set xs \<Longrightarrow> 0 \<le> x"
  shows "(1 - unit_roundoff) ^ length xs * sum_list xs \<le> py_sum xs"
    and "py_sum xs \<le> (1 + unit_roundoff) ^ length xs * sum_list xs"
  unfolding py_sum_def
  using foldl_dec_add_lower [of 0 xs] foldl_dec_add_upper [of 0 xs] assms by simp_all

lemma scaled_value_bounds:
  assumes "0 \<le> amt" and "0 \<le> v" and "0 < T"
  shows "(1 - unit_roundoff)\<^sup>2 * (v * (amt / T)) \<le> dec_mul amt (round_ctx (v / T))"
    and "dec_mul amt (round_ctx (v / T)) \<le> (1 + unit_roundoff)\<^sup>2 * (v * (amt / T))"
proof -
  let ?u = unit_roundoff
  let ?q = "round_ctx (v / T)"
  from assms have d: "0 \<le> v / T" by simp
  then have q: "0 \<le> ?q" by (rule round_ctx_nonneg)
  with assms(1) have aq: "0 \<le> amt * ?q" by simp
  have u1: "0 \<le> 1 - ?u" using unit_roundoff_less_1 by simp
  have u2: "0 \<le> 1 + ?u" using unit_roundoff_pos by simp
  have e1: "(1 - ?u)\<^sup>2 * (v * (amt / T)) = (1 - ?u) * (amt * ((1 - ?u) * (v / T)))"
    by (simp add: power2_eq_square)
  have e2: "(1 + ?u)\<^sup>2 * (v * (amt / T)) = (1 + ?u) * (amt * ((1 + ?u) * (v / T)))"
    by (simp add: power2_eq_square)
  have "amt * ((1 - ?u) * (v / T)) \<le> amt * ?q"
    using round_ctx_bounds(1) [OF d] assms(1) by (rule mult_left_mono)
  then have "(1 - ?u) * (amt * ((1 - ?u) * (v / T))) \<le> (1 - ?u) * (amt * ?q)"
    using u1 by (rule mult_left_mono)
  also have "\<dots> \<le> dec_mul amt ?q" unfolding dec_mul_def by (rule round_ctx_bounds(1) [OF aq])
  finally show "(1 - ?u)\<^sup>2 * (v * (amt / T)) \<le> dec_mul amt ?q" unfolding e1 .
  have "amt * ?q \<le> amt * ((1 + ?u) * (v / T))"
    using round_ctx_bounds(2) [OF d] assms(1) by (rule mult_left_mono)
  then have "(1 + ?u) * (amt * ?q) \<le> (1 + ?u) * (amt * ((1 + ?u) * (v / T)))"
    using u2 by (rule mult_left_mono)
  moreover have "dec_mul amt ?q \<le> (1 + ?u) * (amt * ?q)"
    unfolding dec_mul_def by (rule round_ctx_bounds(2) [OF aq])
  ultimately show "dec_mul amt ?q \<le> (1 + ?u)\<^sup>2 * (v * (amt / T))" unfolding e2 by linarith
qed

lemma sum_list_scaled_bounds:
  assumes "0 \<le> amt" and "\<And>v. v \<in> set vs \<Longrightarrow> 0 \<le> v" and "0 < T"
  shows "(1 - unit_roundoff)\<^sup>2 * (sum_list vs * (amt / T))
           \<le> sum_list (map (\<lambda>v. dec_mul amt (round_ctx (v / T))) vs)
       \<and> sum_list (map (\<lambda>v. dec_mul amt (round_ctx (v / T))) vs)
           \<le> (1 + unit_roundoff)\<^sup>2 * (sum_list vs * (amt / T))"
  using assms(2)
proof (induction vs)
  case Nil
  show ?case by simp
next
  case (Cons v vs)
  have v: "0 \<le> v" using Cons.prems by simp
  note b = scaled_value_bounds [OF assms(1) v assms(3)]
  from Cons.IH Cons.prems
  have ih: "(1 - unit_roundoff)\<^sup>2 * (sum_list vs * (amt / T))
           \<le> sum_list (map (\<lambda>v. dec_mul amt (round_ctx (v / T))) vs)"
       "sum_list (map (\<lambda>v. dec_mul amt (round_ctx (v / T))) vs)
           \<le> (1 + unit_roundoff)\<^sup>2 * (sum_list vs * (amt / T))"
    by simp_all
  from b ih show ?case by (simp add: algebra_simps)
qed


lemma bernoulli_lower:
  fixes u :: rat
  assumes "0 \<le> u" and "u \<le> 1"
  shows "1 - of_nat n * u \<le> (1 - u) ^ n"
proof (induction n)
  case 0
  show ?case by simp
next
  case (Suc n)
  have "1 - of_nat (Suc n) * u \<le> (1 - u) * (1 - of_nat n * u)"
  proof -
    have "0 \<le> of_nat n * (u * u)" using assms(1) by simp
    then show ?thesis by (simp add: algebra_simps)
  qed
  also have "\<dots> \<le> (1 - u) * (1 - u) ^ n"
    using Suc assms(2) by (intro mult_left_mono) simp_all
  finally show ?case by simp
qed

lemma power_split: "a ^ (2 * k + 2) = a ^ (k + 2) * a ^ k" for a :: rat
proof -
  have "2 * k + 2 = (k + 2) + k" by simp
  then show ?thesis by (simp only: power_add)
qed

lemma ratio_lower_gen:
  fixes a b :: rat
  assumes "0 < a" "0 < b" "a * b \<le> 1"
  shows "a ^ (2 * k + 2) \<le> a ^ (k + 2) / b ^ k"
proof -
  have "a ^ k * b ^ k = (a * b) ^ k" by (simp only: power_mult_distrib)
  also have "\<dots> \<le> 1" using assms by (intro power_le_one) simp_all
  finally have "a ^ (k + 2) * (a ^ k * b ^ k) \<le> a ^ (k + 2) * 1"
    using assms(1) by (intro mult_left_mono) simp_all
  then have "a ^ (2 * k + 2) * b ^ k \<le> a ^ (k + 2)"
    by (simp only: power_split mult.assoc mult_1_right)
  moreover have "0 < b ^ k" using assms(2) by simp
  ultimately show ?thesis by (simp only: pos_le_divide_eq)
qed

lemma ratio_upper_gen:
  fixes a b :: rat
  assumes "0 < a" "0 < b" "a * b \<le> 1"
  shows "b ^ (k + 2) / a ^ k \<le> 1 / a ^ (2 * k + 2)"
proof -
  have p: "0 < a ^ (k + 2)" "0 < a ^ k" using assms(1) by simp_all
  have "b ^ (k + 2) * a ^ (k + 2) = (a * b) ^ (k + 2)"
    by (simp only: power_mult_distrib mult.commute)
  also have "\<dots> \<le> 1" using assms by (intro power_le_one) simp_all
  finally have le: "b ^ (k + 2) * a ^ (k + 2) \<le> 1" .
  from p(1) have nz: "a ^ (k + 2) \<noteq> 0" by (rule less_imp_neq [symmetric])
  have "b ^ (k + 2) / a ^ k = (b ^ (k + 2) * a ^ (k + 2)) / (a ^ k * a ^ (k + 2))"
    by (rule mult_divide_mult_cancel_right [OF nz, symmetric])
  also have "\<dots> \<le> 1 / (a ^ k * a ^ (k + 2))"
    using le p by (intro divide_right_mono) simp_all
  also have "a ^ k * a ^ (k + 2) = a ^ (2 * k + 2)"
    by (subst power_split) (rule mult.commute)
  finally show ?thesis .
qed

lemma roundoff_product: "(1 - unit_roundoff) * (1 + unit_roundoff) \<le> 1"
proof -
  have "(1 - unit_roundoff) * (1 + unit_roundoff) = 1 - unit_roundoff * unit_roundoff"
    by (simp add: algebra_simps)
  moreover have "0 \<le> unit_roundoff * unit_roundoff" by simp
  ultimately show ?thesis by linarith
qed

lemma ratio_lower:
  "(1 - unit_roundoff) ^ (2 * k + 2) \<le> (1 - unit_roundoff) ^ (k + 2) / (1 + unit_roundoff) ^ k"
  using unit_roundoff_less_1 unit_roundoff_pos roundoff_product
  by (intro ratio_lower_gen) simp_all

lemma ratio_upper:
  "(1 + unit_roundoff) ^ (k + 2) / (1 - unit_roundoff) ^ k \<le> 1 / (1 - unit_roundoff) ^ (2 * k + 2)"
  using unit_roundoff_less_1 unit_roundoff_pos roundoff_product
  by (intro ratio_upper_gen) simp_all


lemma scaled_sum_bounds:
  fixes vs :: "rat list" and amt :: rat
  defines "T \<equiv> py_sum vs"
  defines "k \<equiv> length vs"
  defines "ws \<equiv> map (\<lambda>v. dec_mul amt (round_ctx (v / T))) vs"
  assumes amt: "0 \<le> amt" and nn: "\<And>v. v \<in> set vs \<Longrightarrow> 0 \<le> v" and lt: "amt < T"
  shows "amt * ((1 - unit_roundoff)\<^sup>2 / (1 + unit_roundoff) ^ k) \<le> sum_list ws"
    and "sum_list ws \<le> amt * ((1 + unit_roundoff)\<^sup>2 / (1 - unit_roundoff) ^ k)"
    and "amt * ((1 - unit_roundoff) ^ (k + 2) / (1 + unit_roundoff) ^ k) \<le> py_sum ws"
    and "py_sum ws \<le> amt * ((1 + unit_roundoff) ^ (k + 2) / (1 - unit_roundoff) ^ k)"
proof -
  let ?a = "1 - unit_roundoff"
  let ?b = "1 + unit_roundoff"
  let ?N = "sum_list vs"
  have a: "0 < ?a" using unit_roundoff_less_1 by simp
  have b: "0 < ?b" using unit_roundoff_pos by simp
  have ak: "0 < ?a ^ k" using a by simp
  have bk: "0 < ?b ^ k" using b by simp
  have T: "0 < T" using amt lt by simp
  have T_lo: "?a ^ k * ?N \<le> T" and T_hi: "T \<le> ?b ^ k * ?N"
    unfolding T_def k_def using py_sum_bounds [of vs] nn by simp_all
  have N: "0 < ?N"
  proof (rule ccontr)
    assume "\<not> 0 < ?N"
    then have "?b ^ k * ?N \<le> 0" using bk by (simp add: mult_le_0_iff)
    with T_hi T show False by simp
  qed
  have r_lo: "1 / ?b ^ k \<le> ?N / T"
  proof -
    have "1 * T \<le> ?N * ?b ^ k" using T_hi by (simp add: mult.commute)
    then show ?thesis using bk T by (simp only: frac_le_eq) (simp add: field_simps)
  qed
  have r_hi: "?N / T \<le> 1 / ?a ^ k"
  proof -
    have "?N * ?a ^ k \<le> 1 * T" using T_lo by (simp add: mult.commute)
    then show ?thesis using ak T by (simp add: field_simps)
  qed
  have e: "?N * (amt / T) = amt * (?N / T)" by simp
  note s = sum_list_scaled_bounds [OF amt nn T, of vs]
  have s_lo: "?a\<^sup>2 * (amt * (?N / T)) \<le> sum_list ws"
    and s_hi: "sum_list ws \<le> ?b\<^sup>2 * (amt * (?N / T))"
    using s unfolding ws_def e by simp_all
  have "amt * (1 / ?b ^ k) \<le> amt * (?N / T)" using r_lo amt by (rule mult_left_mono)
  then have "?a\<^sup>2 * (amt * (1 / ?b ^ k)) \<le> ?a\<^sup>2 * (amt * (?N / T))"
    by (rule mult_left_mono) simp
  with s_lo have "?a\<^sup>2 * (amt * (1 / ?b ^ k)) \<le> sum_list ws" by linarith
  then show lo: "amt * (?a\<^sup>2 / ?b ^ k) \<le> sum_list ws" by (simp add: mult.commute mult.left_commute)
  have "amt * (?N / T) \<le> amt * (1 / ?a ^ k)" using r_hi amt by (rule mult_left_mono)
  then have "?b\<^sup>2 * (amt * (?N / T)) \<le> ?b\<^sup>2 * (amt * (1 / ?a ^ k))"
    by (rule mult_left_mono) simp
  with s_hi have "sum_list ws \<le> ?b\<^sup>2 * (amt * (1 / ?a ^ k))" by linarith
  then show hi: "sum_list ws \<le> amt * (?b\<^sup>2 / ?a ^ k)" by (simp add: mult.commute mult.left_commute)
  have wnn: "0 \<le> w" if "w \<in> set ws" for w
  proof -
    from that obtain v where "v \<in> set vs" "w = dec_mul amt (round_ctx (v / T))"
      unfolding ws_def by auto
    with nn [of v] amt T show ?thesis by (simp add: dec_mul_def round_ctx_nonneg)
  qed
  have len: "length ws = k" by (simp add: ws_def k_def)
  from py_sum_bounds [of ws] wnn len
  have p_lo: "?a ^ k * sum_list ws \<le> py_sum ws" and p_hi: "py_sum ws \<le> ?b ^ k * sum_list ws"
    by simp_all
  have "?a ^ k * (amt * (?a\<^sup>2 / ?b ^ k)) \<le> ?a ^ k * sum_list ws"
    using lo by (rule mult_left_mono) (use ak in simp)
  with p_lo have l: "?a ^ k * (amt * (?a\<^sup>2 / ?b ^ k)) \<le> py_sum ws" by linarith
  have el: "?a ^ k * (amt * (?a\<^sup>2 / ?b ^ k)) = amt * (?a ^ (k + 2) / ?b ^ k)"
    unfolding power_add by simp
  from l show "amt * (?a ^ (k + 2) / ?b ^ k) \<le> py_sum ws" unfolding el .
  have "?b ^ k * sum_list ws \<le> ?b ^ k * (amt * (?b\<^sup>2 / ?a ^ k))"
    using hi by (rule mult_left_mono) (use bk in simp)
  with p_hi have h: "py_sum ws \<le> ?b ^ k * (amt * (?b\<^sup>2 / ?a ^ k))" by linarith
  have eh: "?b ^ k * (amt * (?b\<^sup>2 / ?a ^ k)) = amt * (?b ^ (k + 2) / ?a ^ k)"
    unfolding power_add by simp
  from h show "py_sum ws \<le> amt * (?b ^ (k + 2) / ?a ^ k)" unfolding eh .
qed


lemma simplified_bounds:
  fixes amt P :: rat
  assumes amt: "0 \<le> amt"
    and lo: "amt * ((1 - unit_roundoff) ^ (k + 2) / (1 + unit_roundoff) ^ k) \<le> P"
    and hi: "P \<le> amt * ((1 + unit_roundoff) ^ (k + 2) / (1 - unit_roundoff) ^ k)"
    and small: "of_nat (2 * k + 2) * unit_roundoff < 1"
  shows "amt * (1 - of_nat (2 * k + 2) * unit_roundoff) \<le> P"
    and "P \<le> amt / (1 - of_nat (2 * k + 2) * unit_roundoff)"
proof -
  let ?u = unit_roundoff
  let ?m = "2 * k + 2"
  have u: "0 \<le> ?u" "?u \<le> 1" using unit_roundoff_pos unit_roundoff_less_1 by simp_all
  have b: "1 - of_nat ?m * ?u \<le> (1 - ?u) ^ ?m" by (rule bernoulli_lower [OF u])
  have pos: "0 < 1 - of_nat ?m * ?u" using small by simp
  have "amt * (1 - of_nat ?m * ?u) \<le> amt * (1 - ?u) ^ ?m" using b amt by (rule mult_left_mono)
  also have "\<dots> \<le> amt * ((1 - ?u) ^ (k + 2) / (1 + ?u) ^ k)"
    using ratio_lower [of k] amt by (rule mult_left_mono)
  also note lo
  finally show "amt * (1 - of_nat ?m * ?u) \<le> P" .
  have "1 / (1 - ?u) ^ ?m \<le> 1 / (1 - of_nat ?m * ?u)"
    using b pos by (intro divide_left_mono) simp_all
  with ratio_upper [of k] have "(1 + ?u) ^ (k + 2) / (1 - ?u) ^ k \<le> 1 / (1 - of_nat ?m * ?u)"
    by linarith
  then have "amt * ((1 + ?u) ^ (k + 2) / (1 - ?u) ^ k) \<le> amt * (1 / (1 - of_nat ?m * ?u))"
    using amt by (rule mult_left_mono)
  with hi show "P \<le> amt / (1 - of_nat ?m * ?u)" by simp
qed


lemma round_third: "round_ctx (1 / 3) = 3333333333333333333333333333 / 10000000000000000000000000000"
  by code_simp

lemma round_four_thirds:
  "round_ctx (3333333333333333333333333333 / 2500000000000000000000000000) =
   1333333333333333333333333333 / 1000000000000000000000000000"
  by code_simp

lemma round_sum_1:
  "round_ctx (1333333333333333333333333333 / 1000000000000000000000000000) =
   1333333333333333333333333333 / 1000000000000000000000000000"
  by code_simp

lemma round_sum_2:
  "round_ctx (1333333333333333333333333333 / 500000000000000000000000000) =
   1333333333333333333333333333 / 500000000000000000000000000"
  by code_simp

lemma round_sum_3:
  "round_ctx (3999999999999999999999999999 / 1000000000000000000000000000) =
   3999999999999999999999999999 / 1000000000000000000000000000"
  by code_simp


section \<open>The claims about the aggregator\<close>

text \<open>
  Claim C6. For every balances dictionary and every categories dictionary, the aggregator
  returns a dictionary (it raises nothing) with exactly the keys of \<open>categories\<close>, in
  their order. Each category is bound to the total of its symbols; a category none of
  whose symbols has a balance, in particular one without symbols, is bound to 0. A symbol
  without a balance contributes nothing: the total is the same with the symbol removed
  from the list.
\<close>

theorem aggregator_entry_for_every_category:
  assumes "distinct (map fst categories)"
  shows "\<exists>category_totals.
     get_category_totals symbol_balances categories = Inr category_totals
     \<and> map fst category_totals = map fst categories
     \<and> (\<forall>(category, symbols) \<in> set categories.
          map_of category_totals category = Some (category_total symbol_balances symbols)
          \<and> ((\<forall>s \<in> set symbols. map_of symbol_balances s = None) \<longrightarrow>
               map_of category_totals category = Some 0))
     \<and> (\<forall>s before after. map_of symbol_balances s = None \<longrightarrow>
          category_total symbol_balances (before @ s # after) =
          category_total symbol_balances (before @ after))"
proof -
  let ?ct = "map (\<lambda>(category, symbols). (category, category_total symbol_balances symbols)) categories"
  have 1: "get_category_totals symbol_balances categories = Inr ?ct"
    by (rule get_category_totals_eq [OF assms])
  have 2: "map fst ?ct = map fst categories" by (induction categories) auto
  have 3: "map_of ?ct c = Some (category_total symbol_balances syms)"
    if "(c, syms) \<in> set categories" for c syms
    by (rule map_of_totals [OF assms that])
  have 4: "map_of ?ct c = Some 0"
    if "(c, syms) \<in> set categories" "\<forall>s \<in> set syms. map_of symbol_balances s = None" for c syms
    using 3 [OF that(1)] category_total_absent [of syms symbol_balances] that(2) by simp
  from 1 2 3 4 category_total_skip show ?thesis by (intro exI [of _ ?ct]) auto
qed

theorem aggregator_entry_for_every_category_witness:
  "distinct (map fst [(''Stocks'', [''VTI'', ''VXUS'']), (''Bonds'', [''BND'']), (''Gold'', [])])
   \<and> (\<exists>category_totals.
     get_category_totals [(''VTI'', 6000), (''BND'', 4000)]
       [(''Stocks'', [''VTI'', ''VXUS'']), (''Bonds'', [''BND'']), (''Gold'', [])] = Inr category_totals
     \<and> map fst category_totals = [''Stocks'', ''Bonds'', ''Gold'']
     \<and> map_of category_totals ''Gold'' = Some 0)"
proof -
  have h: "distinct (map fst [(''Stocks'', [''VTI'', ''VXUS'']), (''Bonds'', [''BND'']), (''Gold'', [])])"
    by simp
  from aggregator_entry_for_every_category [OF h, of "[(''VTI'', 6000), (''BND'', 4000)]"] h
  show ?thesis by fastforce
qed

text \<open>
  Claim C7, as amended. Let every symbol with a balance be listed in exactly one category,
  once; let all balances be whole multiples of one unit \<open>10\<^sup>k\<close>, and let the sum of their
  absolute values be at most \<open>10\<^sup>k\<^sup>+\<^sup>2\<^sup>8\<close>, so that no addition needs more than the 28
  digits of the context. Then the sum of the category totals equals the sum of the symbol
  balances, and both are the exact sum.
\<close>

theorem conservation_of_balance:
  assumes "distinct (map fst symbol_balances)"
    and "distinct (map fst categories)"
    and "\<forall>symbol \<in> fst ` set symbol_balances. count_list (concat (map snd categories)) symbol = 1"
    and "\<forall>(symbol, balance) \<in> set symbol_balances. on_grid k balance"
    and "sum_list (map (\<lambda>(symbol, balance). \<bar>balance\<bar>) symbol_balances) \<le> 10 powi (k + 28)"
  shows "\<exists>category_totals.
      get_category_totals symbol_balances categories = Inr category_totals
      \<and> py_sum (map snd category_totals) = py_sum (map snd symbol_balances)
      \<and> py_sum (map snd symbol_balances) = sum_list (map snd symbol_balances)"
proof -
  let ?sb = symbol_balances
  let ?g = "\<lambda>s. get_default ?sb s 0"
  let ?L = "concat (map snd categories)"
  let ?xss = "map (\<lambda>(c, syms). map ?g syms) categories"
  let ?ct = "map (\<lambda>(category, symbols). (category, category_total ?sb symbols)) categories"
  have ct: "get_category_totals ?sb categories = Inr ?ct"
    by (rule get_category_totals_eq [OF assms(2)])
  have grid_sb: "on_grid k b" if "b \<in> set (map snd ?sb)" for b
    using that assms(4) by auto
  have grid_g: "on_grid k (?g s)" for s
  proof (cases "map_of ?sb s")
    case None
    then show ?thesis by (simp add: get_default_def on_grid_0)
  next
    case (Some b)
    then have "(s, b) \<in> set ?sb" by (rule map_of_SomeD)
    with assms(4) Some show ?thesis by (auto simp: get_default_def)
  qed
  have cc: "concat ?xss = map ?g ?L"
    by (induction categories) auto
  have cnt: "count_list ?L s = 1" if "s \<in> fst ` set ?sb" for s
    using that assms(3) by blast
  have "sum_list (map (\<lambda>s. \<bar>?g s\<bar>) ?L) = sum_list (map (\<lambda>(s, b). \<bar>b\<bar>) ?sb)"
    by (rule sum_over_symbols [OF _ assms(1) cnt]) simp_all
  with assms(5) have bound: "sum_list (map abs (concat ?xss)) \<le> 10 powi (k + 28)"
    by (simp add: cc comp_def)
  have "sum_list (map (\<lambda>s. ?g s) ?L) = sum_list (map (\<lambda>(s, b). b) ?sb)"
    by (rule sum_over_symbols [OF _ assms(1) cnt]) simp_all
  also have "map (\<lambda>(s, b). b) ?sb = map snd ?sb" by (intro map_cong) auto
  finally have exact: "sum_list (concat ?xss) = sum_list (map snd ?sb)" by (simp add: cc)
  have m: "map snd ?ct = map py_sum ?xss"
    by (induction categories) (auto simp: category_total_py_sum)
  have "py_sum (map snd ?ct) = py_sum (map py_sum ?xss)" by (simp only: m)
  also have "\<dots> = sum_list (concat ?xss)"
  proof (rule py_sum_nested_exact [OF _ bound])
    fix x assume "x \<in> set (concat ?xss)"
    then show "on_grid k x" unfolding cc using grid_g by auto
  qed
  finally have 1: "py_sum (map snd ?ct) = sum_list (map snd ?sb)" by (simp add: exact)
  have a: "map abs (map snd ?sb) = map (\<lambda>(s, b). \<bar>b\<bar>) ?sb" by (induction ?sb) auto
  have "sum_list (map abs (map snd ?sb)) \<le> 10 powi (k + 28)"
    unfolding a by (rule assms(5))
  from py_sum_exact [OF grid_sb this] have 2: "py_sum (map snd ?sb) = sum_list (map snd ?sb)" .
  from ct 1 2 show ?thesis by simp
qed


theorem conservation_of_balance_witness:
  "distinct (map fst [(''VTI'', 12001 / 2), (''BND'', 7999 / 2 :: rat)])
   \<and> distinct (map fst [(''Stocks'', [''VTI'', ''VXUS'']), (''Bonds'', [''BND''])])
   \<and> concat (map snd [(''Stocks'', [''VTI'', ''VXUS'']), (''Bonds'', [''BND''])]) = [''VTI'', ''VXUS'', ''BND'']
   \<and> (\<exists>category_totals.
        get_category_totals [(''VTI'', 12001 / 2), (''BND'', 7999 / 2)]
          [(''Stocks'', [''VTI'', ''VXUS'']), (''Bonds'', [''BND''])] = Inr category_totals
        \<and> py_sum (map snd category_totals) = py_sum (map snd [(''VTI'', 12001 / 2), (''BND'', 7999 / 2)])
        \<and> py_sum (map snd [(''VTI'', 12001 / 2), (''BND'', 7999 / 2)]) = 10000)"
proof -
  let ?sb = "[(''VTI'', 12001 / 2), (''BND'', 7999 / 2 :: rat)]"
  let ?cats = "[(''Stocks'', [''VTI'', ''VXUS'']), (''Bonds'', [''BND''])]"
  have h1: "distinct (map fst ?sb)" by simp
  have h2: "distinct (map fst ?cats)" by simp
  have h3: "\<forall>symbol \<in> fst ` set ?sb. count_list (concat (map snd ?cats)) symbol = 1" by simp
  have h4: "\<forall>(symbol, balance) \<in> set ?sb. on_grid (- 2) balance"
    by (simp add: on_grid_def power_int_minus)
  have h5: "sum_list (map (\<lambda>(symbol, balance). \<bar>balance\<bar>) ?sb) \<le> 10 powi (- 2 + 28)" by simp
  from conservation_of_balance [OF h1 h2 h3 h4 h5] h1 h2 show ?thesis by simp
qed

text \<open>
  Claim C7 as stated fails where a sum needs a 29th digit. Balances \<open>10\<^sup>2\<^sup>8\<close>, 4 and 4:
  added in this order, each 4 is rounded away and \<open>sum(symbol_balances.values())\<close> is
  \<open>10\<^sup>2\<^sup>8\<close>; with the two small balances in one category, their total 8 is added to
  \<open>10\<^sup>2\<^sup>8\<close> and rounded up, and \<open>sum(category_totals.values())\<close> is \<open>10\<^sup>2\<^sup>8 + 10\<close>.
\<close>

theorem conservation_of_balance_counterexample:
  "distinct (map fst [(''a'', 10000000000000000000000000000 :: rat), (''b'', 4), (''c'', 4)])
   \<and> distinct (map fst [(''X'', [''b'', ''c'']), (''Y'', [''a''])])
   \<and> concat (map snd [(''X'', [''b'', ''c'']), (''Y'', [''a''])]) = [''b'', ''c'', ''a'']
   \<and> get_category_totals [(''a'', 10000000000000000000000000000), (''b'', 4), (''c'', 4)]
        [(''X'', [''b'', ''c'']), (''Y'', [''a''])] =
       Inr [(''X'', 8), (''Y'', 10000000000000000000000000000)]
   \<and> py_sum (map snd [(''X'', 8), (''Y'', 10000000000000000000000000000)]) =
       10000000000000000000000000010
   \<and> py_sum (map snd [(''a'', 10000000000000000000000000000), (''b'', 4), (''c'', 4)]) =
       10000000000000000000000000000"
  by (simp add: eval_simps get_category_totals_def round_29_up round_29_down)


section \<open>The claims about the distributor\<close>

text \<open>
  Claim C8. With a nonnegative investment amount the capping never divides by zero: it
  always returns a dictionary, and when the branch is entered (the total needed exceeds
  the investment amount) the total needed is positive, so every division by it yields
  the rounded quotient.
\<close>

theorem capping_never_divides_by_zero:
  assumes "0 \<le> investment_amount"
  shows "(\<exists>capped. cap_to_investment investment_amount needed = Inr capped)
     \<and> (investment_amount < total_needed needed \<longrightarrow>
          0 < total_needed needed
          \<and> (\<forall>n. dec_div n (total_needed needed) = Inr (round_ctx (n / total_needed needed))))"
proof (cases "investment_amount < total_needed needed")
  case True
  with assms have pos: "0 < total_needed needed" by simp
  then have "dec_div n (total_needed needed) = Inr (round_ctx (n / total_needed needed))" for n
    by (simp add: dec_div_def)
  with cap_to_investment_scaled [OF assms True] pos show ?thesis by simp
next
  case False
  then show ?thesis by (simp add: cap_to_investment_def)
qed


theorem capping_never_divides_by_zero_witness:
  "(0::rat) \<le> 100
   \<and> 100 < total_needed [(''A'', 500), (''B'', 0)]
   \<and> cap_to_investment 100 [(''A'', 500), (''B'', 0)] = Inr [(''A'', 100), (''B'', 0)]
   \<and> 0 < total_needed [(''A'', 500), (''B'', 0)]
   \<and> (\<forall>n. dec_div n (total_needed [(''A'', 500), (''B'', 0)]) =
              Inr (round_ctx (n / total_needed [(''A'', 500), (''B'', 0)])))"
proof -
  have h: "(0::rat) \<le> 100" by simp
  have t: "100 < total_needed [(''A'', 500), (''B'', 0)]" by (simp add: eval_simps)
  have c: "cap_to_investment 100 [(''A'', 500), (''B'', 0)] = Inr [(''A'', 100), (''B'', 0)]"
    by (simp add: eval_simps cap_to_investment_def)
  from capping_never_divides_by_zero [OF h, of "[(''A'', 500), (''B'', 0)]"] h t c
  show ?thesis by blast
qed

text \<open>
  Claim C3. Whenever the total needed does not exceed the investment amount, the needed
  investments that \<open>main\<close> ends with are the shortfalls it first computed, left as they
  are, and the value of every category is exactly \<open>max(0, (current_total_balance +
  investment_amount) * target_fraction - current_total)\<close>. Their sum may then be less than
  the investment amount: in the instance that follows, 800 are distributed out of 2000.
\<close>

theorem unscaled_when_total_needed_fits:
  assumes "shortfalls (get_desired_balances investment_amount (total_balance category_totals)
                         target_allocation) category_totals categories = Inr needed"
    and "total_needed needed \<le> investment_amount"
  shows "needed_investments investment_amount category_totals target_allocation categories = Inr needed
     \<and> (\<forall>category \<in> fst ` set categories. \<exists>target_fraction current_total.
           map_of target_allocation category = Some target_fraction
           \<and> map_of category_totals category = Some current_total
           \<and> map_of needed category =
               Some (desired_shortfall (total_balance category_totals) investment_amount
                       target_fraction current_total))"
proof -
  from assms have "needed_investments investment_amount category_totals target_allocation categories = Inr needed"
    by (simp add: needed_investments_def cap_to_investment_unscaled)
  with shortfalls_lookup [OF assms(1)] show ?thesis by blast
qed

theorem unscaled_when_total_needed_fits_witness:
  "shortfalls (get_desired_balances 2000 (total_balance [(''Stocks'', 6000), (''Bonds'', 4000)])
                 [(''Stocks'', 1 / 2), (''Bonds'', 2 / 5)])
       [(''Stocks'', 6000), (''Bonds'', 4000)] [(''Stocks'', [''VTI'']), (''Bonds'', [''BND''])] =
     Inr [(''Stocks'', 0), (''Bonds'', 800)]
   \<and> total_needed [(''Stocks'', 0), (''Bonds'', 800)] \<le> 2000
   \<and> total_needed [(''Stocks'', 0), (''Bonds'', 800)] < 2000
   \<and> needed_investments 2000 [(''Stocks'', 6000), (''Bonds'', 4000)]
        [(''Stocks'', 1 / 2), (''Bonds'', 2 / 5)] [(''Stocks'', [''VTI'']), (''Bonds'', [''BND''])] =
      Inr [(''Stocks'', 0), (''Bonds'', 800)]
   \<and> desired_shortfall (total_balance [(''Stocks'', 6000), (''Bonds'', 4000)]) 2000 (2 / 5) 4000 = 800"
proof -
  let ?ct = "[(''Stocks'', 6000), (''Bonds'', 4000 :: rat)]"
  let ?ta = "[(''Stocks'', 1 / 2), (''Bonds'', 2 / 5 :: rat)]"
  let ?cats = "[(''Stocks'', [''VTI'']), (''Bonds'', [''BND''])]"
  let ?n = "[(''Stocks'', 0), (''Bonds'', 800 :: rat)]"
  have h1: "shortfalls (get_desired_balances 2000 (total_balance ?ct) ?ta) ?ct ?cats = Inr ?n"
    by (simp add: eval_simps shortfalls_def get_desired_balances_def)
  have t: "total_needed ?n = 800" by (simp add: eval_simps)
  then have h2: "total_needed ?n \<le> 2000" by simp
  have d: "desired_shortfall (total_balance ?ct) 2000 (2 / 5) 4000 = 800"
    by (simp add: eval_simps desired_shortfall_def)
  from unscaled_when_total_needed_fits [OF h1 h2] h1 h2 t d show ?thesis by simp
qed


text \<open>
  Claim C4. For all balances, all categories and all target fractions (one for every
  category), investing 0 after the aggregation needs 0 in every category, and the
  resulting totals are the current totals.
\<close>

theorem zero_investment_is_identity:
  assumes "distinct (map fst categories)"
    and "\<forall>category \<in> fst ` set categories. category \<in> fst ` set target_allocation"
  shows "\<exists>category_totals needed.
      get_category_totals symbol_balances categories = Inr category_totals
      \<and> needed_investments 0 category_totals target_allocation categories = Inr needed
      \<and> needed = map (\<lambda>(category, symbols). (category, 0)) categories
      \<and> resulting_totals category_totals needed categories = Inr category_totals"
proof -
  let ?K = "map fst categories"
  let ?Z = "map (\<lambda>k. (k, 0::rat)) ?K"
  obtain ct where ct: "get_category_totals symbol_balances categories = Inr ct"
    using get_category_totals_eq [OF assms(1)] by blast
  note p = get_category_totals_props [OF assms(1) ct]
  have keys: "c \<in> fst ` set target_allocation \<and> c \<in> fst ` set ct" if "c \<in> fst ` set categories" for c
  proof -
    from that have "c \<in> set (map fst ct)" unfolding p(1) by simp
    then have "c \<in> fst ` set ct" by simp
    moreover from that assms(2) have "c \<in> fst ` set target_allocation" by blast
    ultimately show ?thesis by blast
  qed
  from shortfalls_total [of categories target_allocation ct 0 "total_balance ct", OF keys]
  obtain n0 where n0: "shortfalls (get_desired_balances 0 (total_balance ct) target_allocation) ct categories = Inr n0"
    by blast
  note k0 = shortfalls_keys [OF n0]
  have nn: "0 \<le> v" if "(c, v) \<in> set n0" for c v by (rule shortfalls_nonneg [OF n0 that])
  have cap: "cap_to_investment 0 n0 = Inr ?Z"
  proof (cases "0 < total_needed n0")
    case True
    from cap_to_investment_scaled [OF order_refl True] show ?thesis
      by (simp add: dec_mul_def k0)
  next
    case False
    moreover have "0 \<le> total_needed n0"
      unfolding total_needed_def using nn by (intro py_sum_nonneg) auto
    ultimately have "py_sum (map snd n0) = 0" by (simp add: total_needed_def)
    then have "\<forall>x \<in> set (map snd n0). x = 0" using nn by (intro py_sum_zero) auto
    then have "v = 0" if "(k, v) \<in> set n0" for k v using that by force
    from all_zero_dict [of n0, OF this] have "n0 = ?Z" by (simp add: k0)
    with False show ?thesis by (simp add: cap_to_investment_def)
  qed
  have needed: "needed_investments 0 ct target_allocation categories = Inr ?Z"
    by (simp add: needed_investments_def n0 cap)
  have Z: "?Z = map (\<lambda>(category, symbols). (category, 0)) categories"
    by (induction categories) auto
  have keysZ: "c \<in> fst ` set ct \<and> c \<in> fst ` set ?Z" if "c \<in> fst ` set categories" for c
    using keys [OF that] that by force
  have "dec_add (the (map_of ct c)) (the (map_of ?Z c)) = the (map_of ct c)"
    if "c \<in> set ?K" for c
  proof -
    from that have "c \<in> fst ` set ct" using p(1) by (metis set_map)
    then obtain t where t: "map_of ct c = Some t" using lookup_key [of c ct] by auto
    then have "(c, t) \<in> set ct" by (rule map_of_SomeD)
    then have "round_ctx t = t" by (rule p(3))
    moreover have "map_of ?Z c = ((Some \<circ> (\<lambda>k. 0)) |` set ?K) c"
      by (simp only: map_of_map_restrict)
    with that have "map_of ?Z c = Some 0" by (simp add: restrict_map_def)
    ultimately show ?thesis using t by (simp add: dec_add_def)
  qed
  then have "map (\<lambda>c. (c, dec_add (the (map_of ct c)) (the (map_of ?Z c)))) ?K =
      map (\<lambda>c. (c, the (map_of ct c))) ?K"
    by (intro map_cong) auto
  also have "\<dots> = ct" using dict_as_keys [OF p(2)] by (simp add: p(1))
  finally have "resulting_totals ct ?Z categories = Inr ct"
    using resulting_totals_eq [of categories ct ?Z, OF keysZ] by simp
  with ct needed Z show ?thesis by metis
qed


theorem zero_investment_is_identity_witness:
  "distinct (map fst [(''A'', [''VTI'']), (''B'', [''BND''])])
   \<and> get_category_totals [(''VTI'', 0), (''BND'', 900)] [(''A'', [''VTI'']), (''B'', [''BND''])] =
       Inr [(''A'', 0), (''B'', 900)]
   \<and> needed_investments 0 [(''A'', 0), (''B'', 900)] [(''A'', 1 / 2), (''B'', 1 / 2)]
        [(''A'', [''VTI'']), (''B'', [''BND''])] = Inr [(''A'', 0), (''B'', 0)]
   \<and> resulting_totals [(''A'', 0), (''B'', 900)] [(''A'', 0), (''B'', 0)]
        [(''A'', [''VTI'']), (''B'', [''BND''])] = Inr [(''A'', 0), (''B'', 900)]"
proof -
  let ?cats = "[(''A'', [''VTI'']), (''B'', [''BND''])]"
  let ?ta = "[(''A'', 1 / 2), (''B'', 1 / 2 :: rat)]"
  have h1: "distinct (map fst ?cats)" by simp
  have h2: "\<forall>category \<in> fst ` set ?cats. category \<in> fst ` set ?ta" by simp
  have e: "get_category_totals [(''VTI'', 0), (''BND'', 900)] ?cats = Inr [(''A'', 0), (''B'', 900)]"
    by (simp add: eval_simps get_category_totals_def)
  from zero_investment_is_identity [OF h1 h2, of "[(''VTI'', 0), (''BND'', 900)]"] e h1
  show ?thesis by auto
qed

text \<open>
  Claim C9. With a nonnegative investment amount, every needed investment is
  nonnegative, before the capping (the shortfalls) and after it, and the resulting total
  of every category is at least its current total: the distributor never takes money
  out of a category.
\<close>

theorem distributor_never_withdraws:
  assumes "0 \<le> investment_amount"
    and "distinct (map fst categories)"
    and "get_category_totals symbol_balances categories = Inr category_totals"
    and "shortfalls (get_desired_balances investment_amount (total_balance category_totals)
                       target_allocation) category_totals categories = Inr shortfall"
  shows "(\<forall>(category, v) \<in> set shortfall. 0 \<le> v)
     \<and> (\<exists>needed resulting.
          needed_investments investment_amount category_totals target_allocation categories = Inr needed
          \<and> (\<forall>(category, v) \<in> set needed. 0 \<le> v)
          \<and> resulting_totals category_totals needed categories = Inr resulting
          \<and> (\<forall>category \<in> fst ` set categories. \<exists>current r.
                map_of category_totals category = Some current
                \<and> map_of resulting category = Some r \<and> current \<le> r))"
proof -
  let ?K = "map fst categories"
  note p = get_category_totals_props [OF assms(2) assms(3)]
  have nn0: "0 \<le> v" if "(c, v) \<in> set shortfall" for c v
    by (rule shortfalls_nonneg [OF assms(4) that])
  have "\<exists>n1. cap_to_investment investment_amount shortfall = Inr n1
           \<and> map fst n1 = map fst shortfall \<and> (\<forall>(c, v) \<in> set n1. 0 \<le> v)"
    by (rule cap_to_investment_props [OF assms(1)]) (rule nn0)
  then obtain n1 where cap: "cap_to_investment investment_amount shortfall = Inr n1"
    and k1: "map fst n1 = map fst shortfall" and nn1: "\<forall>(c, v) \<in> set n1. 0 \<le> v"
    by blast
  from k1 have keys1: "map fst n1 = ?K" by (simp add: shortfalls_keys [OF assms(4)])
  have needed: "needed_investments investment_amount category_totals target_allocation categories = Inr n1"
    by (simp add: needed_investments_def assms(4) cap)
  let ?g = "\<lambda>c. dec_add (the (map_of category_totals c)) (the (map_of n1 c))"
  let ?rt = "map (\<lambda>c. (c, ?g c)) ?K"
  have keys: "c \<in> fst ` set category_totals \<and> c \<in> fst ` set n1"
    if "c \<in> fst ` set categories" for c
  proof -
    from that have "c \<in> set (map fst category_totals)" "c \<in> set (map fst n1)"
      unfolding p(1) keys1 by simp_all
    then show ?thesis by simp
  qed
  have rt: "resulting_totals category_totals n1 categories = Inr ?rt"
    by (rule resulting_totals_eq [OF keys])
  have "\<exists>current r. map_of category_totals c = Some current \<and> map_of ?rt c = Some r \<and> current \<le> r"
    if c: "c \<in> fst ` set categories" for c
  proof -
    from keys [OF c] obtain t v where t: "map_of category_totals c = Some t"
      and v: "map_of n1 c = Some v"
      using lookup_key [of c category_totals] lookup_key [of c n1] by auto
    from t have "(c, t) \<in> set category_totals" by (rule map_of_SomeD)
    then have r: "round_ctx t = t" by (rule p(3))
    from v have "(c, v) \<in> set n1" by (rule map_of_SomeD)
    with nn1 have "0 \<le> v" by auto
    then have "round_ctx t \<le> round_ctx (t + v)" by (intro round_ctx_mono) simp
    with r have "t \<le> ?g c" by (simp add: dec_add_def t v)
    moreover from c have "map_of ?rt c = Some (?g c)" by (intro map_of_keys_map) simp
    ultimately show ?thesis using t by blast
  qed
  with nn0 needed nn1 rt show ?thesis by blast
qed


theorem distributor_never_withdraws_witness:
  "(0::rat) \<le> 100
   \<and> distinct (map fst [(''A'', [''VTI'']), (''B'', [''BND''])])
   \<and> get_category_totals [(''VTI'', 0), (''BND'', 900)] [(''A'', [''VTI'']), (''B'', [''BND''])] =
       Inr [(''A'', 0), (''B'', 900)]
   \<and> shortfalls (get_desired_balances 100 (total_balance [(''A'', 0), (''B'', 900)])
                    [(''A'', 1 / 2), (''B'', 1 / 2)])
         [(''A'', 0), (''B'', 900)] [(''A'', [''VTI'']), (''B'', [''BND''])] =
       Inr [(''A'', 500), (''B'', 0)]
   \<and> needed_investments 100 [(''A'', 0), (''B'', 900)] [(''A'', 1 / 2), (''B'', 1 / 2)]
        [(''A'', [''VTI'']), (''B'', [''BND''])] = Inr [(''A'', 100), (''B'', 0)]
   \<and> resulting_totals [(''A'', 0), (''B'', 900)] [(''A'', 100), (''B'', 0)]
        [(''A'', [''VTI'']), (''B'', [''BND''])] = Inr [(''A'', 100), (''B'', 900)]
   \<and> (\<exists>needed resulting.
          needed_investments 100 [(''A'', 0), (''B'', 900)] [(''A'', 1 / 2), (''B'', 1 / 2)]
            [(''A'', [''VTI'']), (''B'', [''BND''])] = Inr needed
          \<and> resulting_totals [(''A'', 0), (''B'', 900)] needed
            [(''A'', [''VTI'']), (''B'', [''BND''])] = Inr resulting
          \<and> (\<exists>current r. map_of [(''A'', 0), (''B'', 900)] ''A'' = Some current
                \<and> map_of resulting ''A'' = Some r \<and> current \<le> r))"
proof -
  let ?cats = "[(''A'', [''VTI'']), (''B'', [''BND''])]"
  let ?ta = "[(''A'', 1 / 2), (''B'', 1 / 2 :: rat)]"
  let ?ct = "[(''A'', 0), (''B'', 900 :: rat)]"
  have h1: "(0::rat) \<le> 100" by simp
  have h2: "distinct (map fst ?cats)" by simp
  have h3: "get_category_totals [(''VTI'', 0), (''BND'', 900)] ?cats = Inr ?ct"
    by (simp add: eval_simps get_category_totals_def)
  have h4: "shortfalls (get_desired_balances 100 (total_balance ?ct) ?ta) ?ct ?cats =
      Inr [(''A'', 500), (''B'', 0)]"
    by (simp add: eval_simps shortfalls_def get_desired_balances_def)
  have n: "needed_investments 100 ?ct ?ta ?cats = Inr [(''A'', 100), (''B'', 0)]"
    by (simp add: eval_simps needed_investments_def shortfalls_def get_desired_balances_def
        cap_to_investment_def)
  have r: "resulting_totals ?ct [(''A'', 100), (''B'', 0)] ?cats = Inr [(''A'', 100), (''B'', 900)]"
    by (simp add: eval_simps resulting_totals_def)
  from distributor_never_withdraws [OF h1 h2 h3 h4]
  have "\<exists>needed resulting.
          needed_investments 100 ?ct ?ta ?cats = Inr needed
          \<and> resulting_totals ?ct needed ?cats = Inr resulting
          \<and> (\<exists>current r. map_of ?ct ''A'' = Some current
                \<and> map_of resulting ''A'' = Some r \<and> current \<le> r)"
    by fastforce
  with h1 h2 h3 h4 n r show ?thesis by blast
qed

text \<open>
  Claim C1, as amended. The division \<open>resulting_totals[category] /
  resulting_total_balance\<close> fails exactly when the resulting total balance is 0, so the
  resulting allocations fail exactly when it is 0 and there is a category. With a
  nonnegative investment amount and no negative current total, a resulting total
  balance of 0 is only possible when every current category total is 0 and every needed
  investment is 0; then the investment amount is 0 or no category has a positive target
  fraction.
\<close>

theorem zero_resulting_total:
  assumes "0 \<le> investment_amount"
    and "distinct (map fst categories)"
    and "get_category_totals symbol_balances categories = Inr category_totals"
    and "\<forall>(category, current) \<in> set category_totals. 0 \<le> current"
    and "needed_investments investment_amount category_totals target_allocation categories = Inr needed"
    and "resulting_totals category_totals needed categories = Inr resulting"
  shows "(\<forall>current. isl (dec_div current (resulting_total_balance resulting)) \<longleftrightarrow>
            resulting_total_balance resulting = 0)
     \<and> (isl (resulting_allocations resulting categories) \<longleftrightarrow>
            resulting_total_balance resulting = 0 \<and> categories \<noteq> [])
     \<and> (resulting_total_balance resulting = 0 \<longrightarrow>
            (\<forall>(category, current) \<in> set category_totals. current = 0)
            \<and> (\<forall>(category, v) \<in> set needed. v = 0)
            \<and> (investment_amount = 0
                \<or> (\<forall>category \<in> fst ` set categories. \<forall>target_fraction.
                      map_of target_allocation category = Some target_fraction \<longrightarrow>
                      target_fraction \<le> 0)))"
proof (intro conjI impI)
  let ?K = "map fst categories"
  let ?ct = category_totals
  let ?amt = investment_amount
  show "\<forall>current. isl (dec_div current (resulting_total_balance resulting)) \<longleftrightarrow>
            resulting_total_balance resulting = 0"
    by (simp add: dec_div_def)
  show "isl (resulting_allocations resulting categories) \<longleftrightarrow>
            resulting_total_balance resulting = 0 \<and> categories \<noteq> []"
    by (rule resulting_allocations_fails_iff [OF resulting_totals_keys [OF assms(6)]])
  note p = get_category_totals_props [OF assms(2) assms(3)]
  from assms(5) obtain n0
    where n0: "shortfalls (get_desired_balances ?amt (total_balance ?ct) target_allocation) ?ct categories = Inr n0"
      and cap: "cap_to_investment ?amt n0 = Inr needed"
    by (rule needed_investments_Inr)
  have nn0: "0 \<le> v" if "(c, v) \<in> set n0" for c v by (rule shortfalls_nonneg [OF n0 that])
  have "\<exists>n1. cap_to_investment ?amt n0 = Inr n1
           \<and> map fst n1 = map fst n0 \<and> (\<forall>(c, v) \<in> set n1. 0 \<le> v)"
    by (rule cap_to_investment_props [OF assms(1)]) (rule nn0)
  with cap have k1: "map fst needed = ?K" and nn1: "\<forall>(c, v) \<in> set needed. 0 \<le> v"
    by (auto simp: shortfalls_keys [OF n0])
  have keys: "c \<in> fst ` set ?ct \<and> c \<in> fst ` set needed" if "c \<in> fst ` set categories" for c
  proof -
    from that have "c \<in> set (map fst ?ct)" "c \<in> set (map fst needed)"
      unfolding p(1) k1 by simp_all
    then show ?thesis by simp
  qed
  let ?g = "\<lambda>c. dec_add (the (map_of ?ct c)) (the (map_of needed c))"
  from resulting_totals_eq [of categories ?ct needed, OF keys] assms(6)
  have rt: "resulting = map (\<lambda>c. (c, ?g c)) ?K" by simp
  have vals: "0 \<le> the (map_of ?ct c) \<and> 0 \<le> the (map_of needed c)" if "c \<in> set ?K" for c
  proof -
    from that have "c \<in> fst ` set categories" by simp
    from keys [OF this] obtain t v where t: "map_of ?ct c = Some t" and v: "map_of needed c = Some v"
      using lookup_key [of c ?ct] lookup_key [of c needed] by auto
    from t have "(c, t) \<in> set ?ct" by (rule map_of_SomeD)
    moreover from v have "(c, v) \<in> set needed" by (rule map_of_SomeD)
    ultimately show ?thesis using assms(4) nn1 t v by auto
  qed
  assume z: "resulting_total_balance resulting = 0"
  have nnr: "0 \<le> x" if "x \<in> set (map snd resulting)" for x
  proof -
    from that obtain c where "c \<in> set ?K" "x = ?g c" unfolding rt by auto
    with vals [of c] show ?thesis by (simp add: dec_add_def round_ctx_nonneg)
  qed
  have allz: "\<forall>x \<in> set (map snd resulting). x = 0"
  proof (rule py_sum_zero)
    fix x assume "x \<in> set (map snd resulting)"
    then show "0 \<le> x" by (rule nnr)
  next
    show "py_sum (map snd resulting) = 0" using z by (simp add: resulting_total_balance_def)
  qed
  have zero: "the (map_of ?ct c) = 0 \<and> the (map_of needed c) = 0" if "c \<in> set ?K" for c
  proof -
    from that have "?g c \<in> set (map snd resulting)" unfolding rt by force
    with allz have "?g c = 0" by blast
    then have "the (map_of ?ct c) + the (map_of needed c) = 0"
      by (simp add: dec_add_def round_ctx_eq_0_iff)
    with vals [OF that] show ?thesis by linarith
  qed
  show ctz: "\<forall>(category, current) \<in> set category_totals. current = 0"
  proof (clarify)
    fix c t assume m: "(c, t) \<in> set ?ct"
    then have "c \<in> set (map fst ?ct)" by force
    then have "c \<in> set ?K" unfolding p(1) .
    moreover from m p(2) have "map_of ?ct c = Some t" by simp
    ultimately show "t = 0" using zero [of c] by simp
  qed
  show "\<forall>(category, v) \<in> set needed. v = 0"
  proof (clarify)
    fix c v assume m: "(c, v) \<in> set needed"
    then have "c \<in> set (map fst needed)" by force
    then have "c \<in> set ?K" unfolding k1 .
    moreover from assms(2) have "distinct (map fst needed)" unfolding k1 .
    with m have "map_of needed c = Some v" by simp
    ultimately show "v = 0" using zero [of c] by simp
  qed
  show "investment_amount = 0
      \<or> (\<forall>category \<in> fst ` set categories. \<forall>target_fraction.
            map_of target_allocation category = Some target_fraction \<longrightarrow> target_fraction \<le> 0)"
  proof (rule ccontr)
    assume "\<not> ?thesis"
    then obtain c f where c: "c \<in> fst ` set categories" and f: "map_of target_allocation c = Some f"
      and fpos: "0 < f" and "?amt \<noteq> 0"
      by (auto simp: not_le)
    with assms(1) have apos: "0 < ?amt" by simp
    from c have cK: "c \<in> set ?K" by simp
    have tb: "total_balance ?ct = 0"
      unfolding total_balance_def
    proof (rule py_sum_zeros)
      fix x assume "x \<in> set (map snd ?ct)"
      with ctz show "x = 0" by auto
    qed
    from keys [OF c] obtain t where t: "map_of ?ct c = Some t"
      using lookup_key [of c ?ct] by auto
    with zero [OF cK] have t0: "t = 0" by simp
    from shortfalls_lookup [OF n0 c] f t t0 tb
    have s: "map_of n0 c = Some (desired_shortfall 0 ?amt f 0)" by simp
    let ?s = "desired_shortfall 0 ?amt f 0"
    have spos: "0 < ?s" by (rule desired_shortfall_pos [OF apos fpos])
    have "0 < the (map_of needed c)"
    proof (cases "?amt < total_needed n0")
      case True
      with assms(1) have T: "0 < total_needed n0" by simp
      from cap_to_investment_scaled [OF assms(1) True] cap
      have "needed = map (\<lambda>k. (k, dec_mul ?amt (round_ctx (the (map_of n0 k) / total_needed n0))))
                       (map fst n0)" by simp
      moreover from cK have "c \<in> set (map fst n0)" by (simp add: shortfalls_keys [OF n0])
      ultimately have "map_of needed c =
          Some (dec_mul ?amt (round_ctx (the (map_of n0 c) / total_needed n0)))"
        by (simp only: map_of_keys_map)
      moreover have "0 < dec_mul ?amt (round_ctx (?s / total_needed n0))"
        unfolding dec_mul_def using apos spos T
        by (intro round_ctx_pos mult_pos_pos divide_pos_pos)
      ultimately show ?thesis by (simp add: s)
    next
      case False
      with cap have "needed = n0" by (simp add: cap_to_investment_def)
      with s spos show ?thesis by simp
    qed
    with zero [OF cK] show False by simp
  qed
qed


theorem zero_resulting_total_witness:
  "(0::rat) \<le> 100
   \<and> distinct (map fst [(''A'', [''VTI''])])
   \<and> get_category_totals [(''VTI'', 0)] [(''A'', [''VTI''])] = Inr [(''A'', 0)]
   \<and> needed_investments 100 [(''A'', 0)] [(''A'', 0)] [(''A'', [''VTI''])] = Inr [(''A'', 0)]
   \<and> resulting_totals [(''A'', 0)] [(''A'', 0)] [(''A'', [''VTI''])] = Inr [(''A'', 0)]
   \<and> resulting_total_balance [(''A'', 0)] = 0
   \<and> isl (resulting_allocations [(''A'', 0)] [(''A'', [''VTI''])])
   \<and> (\<forall>target_fraction. map_of [(''A'', 0 :: rat)] ''A'' = Some target_fraction \<longleftrightarrow>
          target_fraction = 0)"
proof -
  let ?cats = "[(''A'', [''VTI''])]"
  let ?d = "[(''A'', 0 :: rat)]"
  have h1: "(0::rat) \<le> 100" by simp
  have h2: "distinct (map fst ?cats)" by simp
  have h3: "get_category_totals [(''VTI'', 0)] ?cats = Inr ?d"
    by (simp add: eval_simps get_category_totals_def)
  have h4: "\<forall>(category, current) \<in> set ?d. 0 \<le> current" by simp
  have h5: "needed_investments 100 ?d ?d ?cats = Inr ?d"
    by (simp add: eval_simps needed_investments_def shortfalls_def get_desired_balances_def
        cap_to_investment_def)
  have h6: "resulting_totals ?d ?d ?cats = Inr ?d"
    by (simp add: eval_simps resulting_totals_def)
  have z: "resulting_total_balance ?d = 0" by (simp add: eval_simps)
  from zero_resulting_total [OF h1 h2 h3 h4 h5 h6] z
  have "isl (resulting_allocations ?d ?cats)" by simp
  with h1 h2 h3 h5 h6 z show ?thesis by auto
qed

text \<open>
  Claim C1 as stated fails. With one category whose current total and target fraction
  are 0, an investment of 100 leaves the resulting total balance at 0 and the division
  fails, although the investment amount is not 0. And with a negative balance the
  resulting total balance can be 0 with nonzero current totals: \<open>main\<close> passes the
  analyzer and fails at the resulting allocations.
\<close>

theorem zero_resulting_total_counterexample:
  "needed_investments 100 [(''A'', 0)] [(''A'', 0)] [(''A'', [''VTI''])] = Inr [(''A'', 0)]
   \<and> resulting_totals [(''A'', 0)] [(''A'', 0)] [(''A'', [''VTI''])] = Inr [(''A'', 0)]
   \<and> resulting_total_balance [(''A'', 0)] = 0
   \<and> (100::rat) \<noteq> 0
   \<and> distribute 100 [(''A'', 0)] [(''A'', 0)] [(''A'', [''VTI''])] = Inl InvalidOperation
   \<and> get_category_totals [(''VTI'', 5), (''BND'', - 6)] [(''A'', [''VTI'']), (''B'', [''BND''])] =
       Inr [(''A'', 5), (''B'', - 6)]
   \<and> current_allocations [(''A'', 5), (''B'', - 6)] [(''A'', 1 / 2), (''B'', 1 / 2)] =
       Inr [(''A'', - 5), (''B'', 6)]
   \<and> needed_investments 1 [(''A'', 5), (''B'', - 6)] [(''A'', 1 / 2), (''B'', 1 / 2)]
        [(''A'', [''VTI'']), (''B'', [''BND''])] = Inr [(''A'', 0), (''B'', 1)]
   \<and> resulting_totals [(''A'', 5), (''B'', - 6)] [(''A'', 0), (''B'', 1)]
        [(''A'', [''VTI'']), (''B'', [''BND''])] = Inr [(''A'', 5), (''B'', - 5)]
   \<and> resulting_total_balance [(''A'', 5), (''B'', - 5)] = 0
   \<and> main [(''VTI'', 5), (''BND'', - 6)] [(''A'', [''VTI'']), (''B'', [''BND''])]
        [(''A'', 1 / 2), (''B'', 1 / 2)] 1 = Inl DivisionByZero"
  by (simp add: eval_simps main_def distribute_def needed_investments_def shortfalls_def
      get_desired_balances_def cap_to_investment_def resulting_totals_def
      resulting_allocations_def current_allocations_def get_category_totals_def)

text \<open>
  Claim C2. With a nonnegative investment amount, whenever the total needed exceeds the
  investment amount, \<open>main\<close> replaces every shortfall \<open>v\<close> by \<open>investment_amount * (v /
  total_needed)\<close>, computed with two roundings, which lies within the factors \<open>(1 - u)\<^sup>2\<close>
  and \<open>(1 + u)\<^sup>2\<close> of \<open>v * (investment_amount / total_needed)\<close>, where \<open>u\<close> is the unit
  roundoff of the context, half a unit in the 28th digit. The sum of the scaled values,
  as \<open>sum\<close> computes it, equals the investment amount up to rounding: with \<open>k\<close>
  categories it lies between \<open>investment_amount * (1 - u)\<^sup>k\<^sup>+\<^sup>2 / (1 + u)\<^sup>k\<close> and
  \<open>investment_amount * (1 + u)\<^sup>k\<^sup>+\<^sup>2 / (1 - u)\<^sup>k\<close>, hence, as long as \<open>(2k + 2) u < 1\<close>,
  between \<open>investment_amount * (1 - (2k + 2) u)\<close> and \<open>investment_amount / (1 - (2k + 2)
  u)\<close>. The instance that follows shows that the sum need not be the investment amount itself: 4 is
  distributed as 3.999999999999999999999999999.
\<close>

theorem scaling_sums_to_investment:
  assumes "0 \<le> investment_amount"
    and "distinct (map fst categories)"
    and "shortfalls (get_desired_balances investment_amount (total_balance category_totals)
                       target_allocation) category_totals categories = Inr shortfall"
    and "investment_amount < total_needed shortfall"
  shows "\<exists>needed.
       needed_investments investment_amount category_totals target_allocation categories = Inr needed
     \<and> needed = map (\<lambda>(category, v).
                    (category, dec_mul investment_amount (round_ctx (v / total_needed shortfall))))
                  shortfall
     \<and> (\<forall>(category, v) \<in> set shortfall.
          (1 - unit_roundoff)\<^sup>2 * (v * (investment_amount / total_needed shortfall))
            \<le> dec_mul investment_amount (round_ctx (v / total_needed shortfall))
          \<and> dec_mul investment_amount (round_ctx (v / total_needed shortfall))
            \<le> (1 + unit_roundoff)\<^sup>2 * (v * (investment_amount / total_needed shortfall)))
     \<and> investment_amount
          * ((1 - unit_roundoff) ^ (length categories + 2) / (1 + unit_roundoff) ^ length categories)
          \<le> py_sum (map snd needed)
     \<and> py_sum (map snd needed)
          \<le> investment_amount
             * ((1 + unit_roundoff) ^ (length categories + 2) / (1 - unit_roundoff) ^ length categories)
     \<and> (of_nat (2 * length categories + 2) * unit_roundoff < 1 \<longrightarrow>
          investment_amount * (1 - of_nat (2 * length categories + 2) * unit_roundoff)
            \<le> py_sum (map snd needed)
          \<and> py_sum (map snd needed)
            \<le> investment_amount / (1 - of_nat (2 * length categories + 2) * unit_roundoff))"
proof -
  let ?amt = investment_amount
  let ?vs = "map snd shortfall"
  let ?T = "py_sum ?vs"
  let ?f = "\<lambda>v. dec_mul ?amt (round_ctx (v / ?T))"
  let ?needed = "map (\<lambda>(category, v). (category, ?f v)) shortfall"
  let ?k = "length categories"
  have Teq: "total_needed shortfall = ?T" by (simp add: total_needed_def)
  have keys: "map fst shortfall = map fst categories" by (rule shortfalls_keys [OF assms(3)])
  then have d: "distinct (map fst shortfall)" using assms(2) by simp
  have len: "length ?vs = ?k"
    using keys by (metis length_map)
  have nn: "0 \<le> v" if "v \<in> set ?vs" for v
  proof -
    from that obtain c where "(c, v) \<in> set shortfall" by auto
    then show ?thesis by (rule shortfalls_nonneg [OF assms(3)])
  qed
  have lt: "?amt < ?T" using assms(4) by (simp add: total_needed_def)
  have T: "0 < ?T" using assms(1) lt by simp
  have cap: "cap_to_investment ?amt shortfall = Inr ?needed"
    using cap_to_investment_scaled [OF assms(1,4)] map_keys_values [OF d, of ?f]
    by (simp add: Teq)
  have 1: "needed_investments ?amt category_totals target_allocation categories = Inr ?needed"
    by (simp add: needed_investments_def assms(3) cap)
  have 3: "\<forall>(category, v) \<in> set shortfall.
          (1 - unit_roundoff)\<^sup>2 * (v * (?amt / ?T)) \<le> ?f v
          \<and> ?f v \<le> (1 + unit_roundoff)\<^sup>2 * (v * (?amt / ?T))"
  proof (clarify)
    fix c v assume "(c, v) \<in> set shortfall"
    then have "0 \<le> v" by (rule shortfalls_nonneg [OF assms(3)])
    from scaled_value_bounds [OF assms(1) this T]
    show "(1 - unit_roundoff)\<^sup>2 * (v * (?amt / ?T)) \<le> ?f v
          \<and> ?f v \<le> (1 + unit_roundoff)\<^sup>2 * (v * (?amt / ?T))" by simp
  qed
  have ms: "map snd ?needed = map ?f ?vs" by (induction shortfall) auto
  note sb = scaled_sum_bounds(3,4) [OF assms(1) nn lt]
  have 4: "?amt * ((1 - unit_roundoff) ^ (?k + 2) / (1 + unit_roundoff) ^ ?k)
          \<le> py_sum (map snd ?needed)"
    unfolding ms using sb(1) [unfolded len] .
  have 5: "py_sum (map snd ?needed)
          \<le> ?amt * ((1 + unit_roundoff) ^ (?k + 2) / (1 - unit_roundoff) ^ ?k)"
    unfolding ms using sb(2) [unfolded len] .
  from simplified_bounds [OF assms(1) 4 5]
  have 6: "of_nat (2 * ?k + 2) * unit_roundoff < 1 \<longrightarrow>
          ?amt * (1 - of_nat (2 * ?k + 2) * unit_roundoff) \<le> py_sum (map snd ?needed)
          \<and> py_sum (map snd ?needed) \<le> ?amt / (1 - of_nat (2 * ?k + 2) * unit_roundoff)"
    by blast
  show ?thesis unfolding Teq using 1 3 4 5 6 by blast
qed


theorem scaling_sums_to_investment_witness:
  "(0::rat) \<le> 4
   \<and> distinct (map fst [(''A'', [''VA'']), (''B'', [''VB'']), (''C'', [''VC'']), (''D'', [''VD''])])
   \<and> shortfalls (get_desired_balances 4 (total_balance [(''A'', 0), (''B'', 0), (''C'', 0), (''D'', 100)])
                    [(''A'', 1 / 4), (''B'', 1 / 4), (''C'', 1 / 4), (''D'', 1 / 4)])
         [(''A'', 0), (''B'', 0), (''C'', 0), (''D'', 100)]
         [(''A'', [''VA'']), (''B'', [''VB'']), (''C'', [''VC'']), (''D'', [''VD''])] =
       Inr [(''A'', 26), (''B'', 26), (''C'', 26), (''D'', 0)]
   \<and> 4 < total_needed [(''A'', 26), (''B'', 26), (''C'', 26), (''D'', 0)]
   \<and> needed_investments 4 [(''A'', 0), (''B'', 0), (''C'', 0), (''D'', 100)]
         [(''A'', 1 / 4), (''B'', 1 / 4), (''C'', 1 / 4), (''D'', 1 / 4)]
         [(''A'', [''VA'']), (''B'', [''VB'']), (''C'', [''VC'']), (''D'', [''VD''])] =
       Inr [(''A'', 1333333333333333333333333333 / 1000000000000000000000000000),
            (''B'', 1333333333333333333333333333 / 1000000000000000000000000000),
            (''C'', 1333333333333333333333333333 / 1000000000000000000000000000),
            (''D'', 0)]
   \<and> py_sum [1333333333333333333333333333 / 1000000000000000000000000000,
              1333333333333333333333333333 / 1000000000000000000000000000,
              1333333333333333333333333333 / 1000000000000000000000000000, 0] =
       3999999999999999999999999999 / 1000000000000000000000000000
   \<and> 4 * (1 - 10 * unit_roundoff) \<le> 3999999999999999999999999999 / 1000000000000000000000000000
   \<and> 3999999999999999999999999999 / 1000000000000000000000000000 \<le> 4 / (1 - 10 * unit_roundoff)"
proof -
  let ?cats = "[(''A'', [''VA'']), (''B'', [''VB'']), (''C'', [''VC'']), (''D'', [''VD''])]"
  let ?ct = "[(''A'', 0), (''B'', 0), (''C'', 0), (''D'', 100 :: rat)]"
  let ?ta = "[(''A'', 1 / 4), (''B'', 1 / 4), (''C'', 1 / 4), (''D'', 1 / 4 :: rat)]"
  let ?sf = "[(''A'', 26), (''B'', 26), (''C'', 26), (''D'', 0 :: rat)]"
  let ?r = "1333333333333333333333333333 / 1000000000000000000000000000 :: rat"
  let ?n = "[(''A'', ?r), (''B'', ?r), (''C'', ?r), (''D'', 0)]"
  have h1: "(0::rat) \<le> 4" by simp
  have h2: "distinct (map fst ?cats)" by simp
  have h3: "shortfalls (get_desired_balances 4 (total_balance ?ct) ?ta) ?ct ?cats = Inr ?sf"
    by (simp add: eval_simps shortfalls_def get_desired_balances_def)
  have t: "total_needed ?sf = 78" by (simp add: eval_simps)
  then have h4: "4 < total_needed ?sf" by simp
  have s: "py_sum [?r, ?r, ?r, 0] = 3999999999999999999999999999 / 1000000000000000000000000000"
    by (simp add: eval_simps round_sum_1 round_sum_2 round_sum_3)
  have small: "of_nat (2 * length ?cats + 2) * unit_roundoff < 1"
    by (simp add: unit_roundoff_def)
  from scaling_sums_to_investment [OF h1 h2 h3 h4]
  obtain needed where n: "needed_investments 4 ?ct ?ta ?cats = Inr needed"
    and v: "needed = map (\<lambda>(category, v). (category, dec_mul 4 (round_ctx (v / total_needed ?sf)))) ?sf"
    and b: "of_nat (2 * length ?cats + 2) * unit_roundoff < 1 \<longrightarrow>
          4 * (1 - of_nat (2 * length ?cats + 2) * unit_roundoff) \<le> py_sum (map snd needed)
          \<and> py_sum (map snd needed) \<le> 4 / (1 - of_nat (2 * length ?cats + 2) * unit_roundoff)"
    by blast
  from v have v': "needed = ?n"
    by (simp add: t dec_mul_def round_third round_four_thirds)
  from b small have "4 * (1 - of_nat (2 * length ?cats + 2) * unit_roundoff) \<le> py_sum (map snd needed)"
    and "py_sum (map snd needed) \<le> 4 / (1 - of_nat (2 * length ?cats + 2) * unit_roundoff)"
    by blast+
  then have "4 * (1 - 10 * unit_roundoff) \<le> 3999999999999999999999999999 / 1000000000000000000000000000"
    and "3999999999999999999999999999 / 1000000000000000000000000000 \<le> 4 / (1 - 10 * unit_roundoff)"
    unfolding v' using s by simp_all
  with h1 h2 h3 h4 n v' s show ?thesis by blast
qed


section \<open>The claim about the analyzer\<close>

text \<open>
  Claim C5, as amended. When the grand total is 0 and \<open>target_allocation\<close> has at least
  one category, the analyzer fails at the first category of \<open>target_allocation\<close>: with
  \<open>InvalidOperation\<close> when that category's total is 0 (the division \<open>0 / 0\<close>), with
  \<open>DivisionByZero\<close> otherwise. When no category total is negative, a grand total of 0
  leaves only the first case.
\<close>

theorem analyzer_fails_on_zero_total:
  assumes "total_balance category_totals = 0" and "target_allocation \<noteq> []"
  shows "current_allocations category_totals target_allocation =
       Inl (if get_default category_totals (fst (hd target_allocation)) 0 = 0
            then InvalidOperation else DivisionByZero)
     \<and> ((\<forall>v \<in> snd ` set category_totals. 0 \<le> v) \<longrightarrow>
          current_allocations category_totals target_allocation = Inl InvalidOperation)"
proof -
  let ?c = "fst (hd target_allocation)"
  let ?e = "if get_default category_totals ?c 0 = 0 then InvalidOperation else DivisionByZero"
  from assms(2) have ne: "map fst target_allocation \<noteq> []" by simp
  from assms(2) have hd: "hd (map fst target_allocation) = ?c" by (simp add: hd_map)
  have "dec_div (get_default category_totals (hd (map fst target_allocation)) 0)
          (total_balance category_totals) = Inl ?e"
    unfolding hd by (simp add: dec_div_def assms(1))
  then have 1: "current_allocations category_totals target_allocation = Inl ?e"
    unfolding current_allocations_def by (intro comprehension_first_fails [OF ne])
  have 2: "get_default category_totals ?c 0 = 0" if nn: "\<forall>v \<in> snd ` set category_totals. 0 \<le> v"
  proof (cases "map_of category_totals ?c")
    case None
    then show ?thesis by (simp add: get_default_def)
  next
    case (Some v)
    then have "v \<in> set (map snd category_totals)" by (force dest: map_of_SomeD)
    moreover from assms(1) nn have "\<forall>x \<in> set (map snd category_totals). x = 0"
      unfolding total_balance_def by (intro py_sum_zero) auto
    ultimately have "v = 0" by blast
    with Some show ?thesis by (simp add: get_default_def)
  qed
  from 1 2 show ?thesis by simp
qed

theorem analyzer_fails_on_zero_total_witness:
  "total_balance [(''Stocks'', 0), (''Bonds'', 0)] = 0
   \<and> [(''Stocks'', 1 / 2), (''Bonds'', 1 / 2 :: rat)] \<noteq> []
   \<and> current_allocations [(''Stocks'', 0), (''Bonds'', 0)] [(''Stocks'', 1 / 2), (''Bonds'', 1 / 2)] =
       Inl InvalidOperation"
proof -
  have h1: "total_balance [(''Stocks'', 0), (''Bonds'', 0)] = 0" by (simp add: eval_simps)
  have h2: "[(''Stocks'', 1 / 2), (''Bonds'', 1 / 2 :: rat)] \<noteq> []" by simp
  have h3: "\<forall>v \<in> snd ` set [(''Stocks'', 0 :: rat), (''Bonds'', 0)]. 0 \<le> v" by simp
  from analyzer_fails_on_zero_total [OF h1 h2] h1 h2 h3 show ?thesis by blast
qed

text \<open>
  Claim C5 as stated fails twice: with an empty \<open>target_allocation\<close> the grand total of
  no categories is 0 and the analyzer returns without failing; and with one category of
  total 0 the failure is \<open>InvalidOperation\<close>, not \<open>DivisionByZero\<close>.
\<close>

theorem analyzer_division_by_zero_counterexample:
  "total_balance [] = 0 \<and> current_allocations [] [] = Inr []
   \<and> total_balance [(''Stocks'', 0)] = 0
   \<and> current_allocations [(''Stocks'', 0)] [(''Stocks'', 1 / 2)] = Inl InvalidOperation
   \<and> current_allocations [(''Stocks'', 0)] [(''Stocks'', 1 / 2)] \<noteq> Inl DivisionByZero"
  by (simp add: eval_simps current_allocations_def)


end
